theory Spec2Isabelle
  imports Complex_Main
begin

section \<open>Data model of the background tasks (src/background.py)\<close>

text \<open>
  An inbound message is the dictionary the transport returns; the listener reads its
  keys \<open>text\<close>, \<open>id\<close> and \<open>type\<close>, the download helper its key \<open>file_name\<close>.
  A Python \<open>str\<close> is a sequence of Unicode code points, each a natural number below
  \<open>0x110000\<close>; \<open>ascii\<close> gives the \<open>str\<close> of an ASCII literal and \<open>cp\<close> the code point of
  an ASCII character.
\<close>

type_synonym str = "nat list"

abbreviation cp :: "char \<Rightarrow> nat" where
  "cp c \<equiv> of_char c"

abbreviation ascii :: "char list \<Rightarrow> str" where
  "ascii s \<equiv> map of_char s"

record msg =
  msg_text :: str
  msg_id :: str
  msg_type :: str
  file_name :: str

text \<open>
  What a call into the transport, the processor or the storage can raise. The handlers
  of the background loops are \<^verbatim>\<open>except Exception\<close>: they catch every instance of
  \<open>Exception\<close> (carried here with its \<open>str()\<close>), and they do not catch
  \<open>asyncio.CancelledError\<close>, which derives from \<open>BaseException\<close> and is how
  \<open>stop_all\<close> ends a loop.
\<close>

datatype exn = Exception str | CancelledError

text \<open>The calls that leave the module, recorded in the order they are made.\<close>

datatype call =
    CheckLogin
  | GetLatest
  | Download msg
  | Process msg
  | SendText str
  | SyncCheck
  | LoadSession

record err_entry =
  err_time :: real
  err_text :: str

text \<open>
  The constructor arguments of \<open>BackgroundTasks\<close> that the two loops read.
\<close>

record config =
  auto_download :: bool
  max_reconnect_attempts :: int

text \<open>
  The state the loops share and own: \<open>bot.is_logged_in\<close>, the dictionary
  \<open>stability_state\<close>, the local variables of \<open>_background_listener\<close>
  (\<open>processed_order\<close>, \<open>processed_set\<close>, \<open>sent_buffer\<close>, \<open>poll_interval\<close>,
  \<open>had_messages\<close>), whether the listener and heartbeat coroutines are still alive, and
  the trace of outgoing calls. \<open>poll_interval\<close> is a Python float, an IEEE 754 double;
  the field holds the real number the double stands for, and the arithmetic on it rounds
  as the double arithmetic does (see \<open>to_double\<close> below).
\<close>

record state =
  is_logged_in :: bool
  reconnect_attempts :: int
  last_heartbeat :: real
  last_message_time :: real
  total_messages :: int
  errors :: "err_entry list"
  processed_order :: "str list"
  processed_set :: "str set"
  sent_buffer :: "str list"
  poll_interval :: real
  had_messages :: bool
  listener_alive :: bool
  heartbeat_alive :: bool
  calls :: "call list"

subsection \<open>Library behaviour the module relies on\<close>

text \<open>
  \<open>collections.deque(maxlen=n).append(x)\<close>: the element is appended on the right and,
  if the deque is then longer than \<open>n\<close>, one element is dropped on the left.
\<close>

definition deque_append :: "nat \<Rightarrow> 'a list \<Rightarrow> 'a \<Rightarrow> 'a list" where
  "deque_append maxlen xs x =
     (let ys = xs @ [x] in if length ys > maxlen then tl ys else ys)"

text \<open>
  \<open>str.strip()\<close> without an argument removes, at both ends, the code points that
  \<open>str.isspace\<close> accepts (\<open>_PyUnicode_IsWhitespace\<close> in CPython): U+0009--U+000D,
  U+001C--U+0020, U+0085, U+00A0, U+1680, U+2000--U+200A, U+2028, U+2029, U+202F, U+205F
  and U+3000.
\<close>

definition py_isspace :: "nat \<Rightarrow> bool" where
  "py_isspace n =
     ((9 \<le> n \<and> n \<le> 13) \<or> (28 \<le> n \<and> n \<le> 32) \<or> n = 133 \<or> n = 160 \<or> n = 5760
      \<or> (8192 \<le> n \<and> n \<le> 8202) \<or> n = 8232 \<or> n = 8233 \<or> n = 8239 \<or> n = 8287
      \<or> n = 12288)"

definition strip :: "str \<Rightarrow> str" where
  "strip s = rev (dropWhile py_isspace (rev (dropWhile py_isspace s)))"

text \<open>
  Python floats are IEEE 754 doubles: 53 significant bits, rounding to nearest with
  ties to even. \<open>round_even\<close> is that rounding to an integer, \<open>binary_exponent x\<close> the
  \<open>e\<close> with \<open>2 ^ e \<le> x < 2 ^ (e + 1)\<close> for a positive \<open>x\<close>, and \<open>to_double x\<close> the double
  nearest to the real \<open>x\<close>: a multiple of \<open>2 ^ (e - 52)\<close>, or of \<open>2 ^ - 1074\<close> in the
  subnormal range. A float literal denotes \<open>to_double\<close> of its decimal value, and the
  product of two doubles is \<open>to_double\<close> of their exact product. Overflow to infinity
  (magnitudes from \<open>2 ^ 1024\<close>) is not modelled: the interval never exceeds 3.6 before
  it is capped.
\<close>

definition round_even :: "real \<Rightarrow> int" where
  "round_even x =
     (let f = \<lfloor>x\<rfloor>; d = x - of_int f
      in if d < 1/2 then f else if 1/2 < d then f + 1 else if even f then f else f + 1)"

function exp_up :: "real \<Rightarrow> nat" where
  "exp_up x = (if x < 2 then 0 else Suc (exp_up (x / 2)))"
  by auto
termination
proof (relation "measure (\<lambda>x. nat \<lfloor>x\<rfloor>)")
  show "wf (measure (\<lambda>x::real. nat \<lfloor>x\<rfloor>))" by simp
next
  fix x :: real
  assume "\<not> x < 2"
  then have x: "2 \<le> x" by simp
  have "real_of_int \<lfloor>x / 2\<rfloor> \<le> x / 2" by (rule of_int_floor_le)
  also have "\<dots> \<le> x - 1" using x by simp
  also have "\<dots> < real_of_int \<lfloor>x\<rfloor>" by linarith
  finally have "\<lfloor>x / 2\<rfloor> < \<lfloor>x\<rfloor>" by simp
  moreover have "0 < \<lfloor>x\<rfloor>" using x by simp
  ultimately show "(x / 2, x) \<in> measure (\<lambda>x. nat \<lfloor>x\<rfloor>)" by simp
qed

declare exp_up.simps [simp del]

definition pow2 :: "int \<Rightarrow> real" where
  "pow2 e = (if 0 \<le> e then 2 ^ nat e else 1 / 2 ^ nat (- e))"

definition binary_exponent :: "real \<Rightarrow> int" where
  "binary_exponent x =
     (if 1 \<le> x then int (exp_up x)
      else (let k = exp_up (1 / x) in if 1 / x = 2 ^ k then - int k else - int k - 1))"

definition to_double :: "real \<Rightarrow> real" where
  "to_double x =
     (if x = 0 then 0
      else (let ulp = pow2 (max (binary_exponent \<bar>x\<bar> - 52) (- 1074))
            in sgn x * of_int (round_even (\<bar>x\<bar> / ulp)) * ulp))"

definition fmul :: "real \<Rightarrow> real \<Rightarrow> real" where
  "fmul x y = to_double (x * y)"

text \<open>A statement sequence in which a raised exception skips the rest but keeps the
  mutations already made.\<close>

fun and_then :: "state \<times> exn option \<Rightarrow> (state \<Rightarrow> state \<times> exn option) \<Rightarrow> state \<times> exn option" where
  "and_then (s, None) f = f s"
| "and_then (s, Some e) f = (s, Some e)"

definition log_call :: "call \<Rightarrow> state \<Rightarrow> state" where
  "log_call c s = s\<lparr>calls := calls s @ [c]\<rparr>"

subsection \<open>\<open>_add_error\<close>\<close>

definition add_error :: "real \<Rightarrow> str \<Rightarrow> state \<Rightarrow> state" where
  "add_error now error s =
     (let es = errors s @ [\<lparr>err_time = now, err_text = error\<rparr>]
      in s\<lparr>errors := (if length es > 20 then drop (length es - 20) es else es)\<rparr>)"

section \<open>The listener\<close>

text \<open>
  The outcomes of the calls one message can trigger: \<open>_handle_file_download\<close>,
  \<open>processor.process\<close>, \<open>bot.send_text\<close>, and the clock read for
  \<open>last_message_time\<close>. A reply of \<open>None\<close> or of the empty string is falsy.
\<close>

record msg_response =
  download_result :: "exn + unit"
  process_result :: "exn + str option"
  send_result :: "exn + bool"
  clock :: real

text \<open>
  What the outside world answers during one cycle: the result of
  \<open>bot.check_login_status(poll=True)\<close> (the value \<open>bot.is_logged_in\<close> has afterwards),
  of \<open>bot.get_latest_messages(limit=12)\<close> (newest first), the answers per message, and
  the time stamped on an error entry.
\<close>

record listener_env =
  check_login :: "exn + bool"
  fetch :: "exn + msg list"
  respond :: "msg \<Rightarrow> msg_response"
  error_time :: real

definition truthy :: "str option \<Rightarrow> bool" where
  "truthy r = (case r of None \<Rightarrow> False | Some t \<Rightarrow> t \<noteq> [])"

definition unique_key_of :: "msg \<Rightarrow> str" where
  "unique_key_of m =
     (let content = strip (msg_text m); mid = strip (msg_id m)
      in if mid \<noteq> [] then mid else content)"

text \<open>Lines 149--151: the automatic download of images and files.\<close>

definition download_step :: "config \<Rightarrow> listener_env \<Rightarrow> msg \<Rightarrow> state \<Rightarrow> state \<times> exn option" where
  "download_step cfg env m s =
     (if auto_download cfg \<and> (msg_type m = (ascii ''image'') \<or> msg_type m = (ascii ''file'')) then
        (case download_result (respond env m) of
           Inl e \<Rightarrow> (log_call (Download m) s, Some e)
         | Inr _ \<Rightarrow> (log_call (Download m) s, None))
      else (s, None))"

text \<open>Lines 154--158: the dispatch and the reply.\<close>

definition reply_step :: "listener_env \<Rightarrow> msg \<Rightarrow> state \<Rightarrow> state \<times> exn option" where
  "reply_step env m s =
     (let s1 = log_call (Process m) s in
      case process_result (respond env m) of
        Inl e \<Rightarrow> (s1, Some e)
      | Inr reply \<Rightarrow>
          if truthy reply then
            (let s2 = log_call (SendText (the reply)) s1 in
             case send_result (respond env m) of
               Inl e \<Rightarrow> (s2, Some e)
             | Inr ok \<Rightarrow>
                 if ok then (s2\<lparr>sent_buffer := deque_append 40 (sent_buffer s2) (the reply)\<rparr>, None)
                 else (s2, None))
          else (s1, None))"

text \<open>Lines 160--161.\<close>

definition count_message :: "listener_env \<Rightarrow> msg \<Rightarrow> state \<Rightarrow> state \<times> exn option" where
  "count_message env m s =
     (s\<lparr>last_message_time := clock (respond env m),
        total_messages := total_messages s + 1\<rparr>, None)"

text \<open>Lines 132--161: the body of the \<open>for\<close> loop for one message.\<close>

definition handle_msg :: "config \<Rightarrow> listener_env \<Rightarrow> msg \<Rightarrow> state \<Rightarrow> state \<times> exn option" where
  "handle_msg cfg env m s =
     (let content = strip (msg_text m);
          unique_key = unique_key_of m
      in if unique_key = [] then (s, None)
         else if unique_key \<in> processed_set s then (s, None)
         else
           (let s1 = s\<lparr>processed_set := insert unique_key (processed_set s),
                        processed_order := deque_append 5000 (processed_order s) unique_key\<rparr>
            in if content \<noteq> [] \<and> content \<in> set (sent_buffer s1) then (s1, None)
               else
                 and_then (and_then (download_step cfg env m (s1\<lparr>had_messages := True\<rparr>))
                                    (reply_step env m))
                          (count_message env m)))"

fun for_messages :: "config \<Rightarrow> listener_env \<Rightarrow> msg list \<Rightarrow> state \<Rightarrow> state \<times> exn option" where
  "for_messages cfg env [] s = (s, None)"
| "for_messages cfg env (m # ms) s = and_then (handle_msg cfg env m s) (for_messages cfg env ms)"

text \<open>Lines 163--165: the resynchronisation of \<open>processed_set\<close>.\<close>

definition resync :: "state \<Rightarrow> state \<times> exn option" where
  "resync s =
     (if card (processed_set s) > length (processed_order s) + 100
      then (s\<lparr>processed_set := set (processed_order s)\<rparr>, None)
      else (s, None))"

text \<open>Lines 122--126.\<close>

definition login_check :: "listener_env \<Rightarrow> state \<Rightarrow> state \<times> exn option" where
  "login_check env s =
     (if \<not> is_logged_in s then
        (case check_login env of
           Inl e \<Rightarrow> (log_call CheckLogin s, Some e)
         | Inr b \<Rightarrow>
             (let s1 = (log_call CheckLogin s)\<lparr>is_logged_in := b\<rparr>
              in if b then (s1\<lparr>reconnect_attempts := 0\<rparr>, None) else (s1, None)))
      else (s, None))"

text \<open>Lines 128--165.\<close>

definition poll_messages :: "config \<Rightarrow> listener_env \<Rightarrow> state \<Rightarrow> state \<times> exn option" where
  "poll_messages cfg env s =
     (if is_logged_in s then
        (case fetch env of
           Inl e \<Rightarrow> (log_call GetLatest s, Some e)
         | Inr messages \<Rightarrow>
             and_then (for_messages cfg env (rev messages) (log_call GetLatest s)) resync)
      else (s, None))"

text \<open>Lines 120--165: the statements inside \<open>try\<close>, before the interval is adjusted.\<close>

definition listener_try :: "config \<Rightarrow> listener_env \<Rightarrow> state \<Rightarrow> state \<times> exn option" where
  "listener_try cfg env s =
     and_then (login_check env (s\<lparr>had_messages := False\<rparr>)) (poll_messages cfg env)"

text \<open>
  Lines 167--171, with \<open>min_interval = 0.5\<close> and \<open>max_interval = 3.0\<close> (lines 113--114),
  which are doubles as they stand; \<open>1.2\<close> is not.
\<close>

definition adjust_interval :: "state \<Rightarrow> state" where
  "adjust_interval s =
     (if had_messages s then s\<lparr>poll_interval := 0.5\<rparr>
      else s\<lparr>poll_interval := min (fmul (poll_interval s) (to_double 1.2)) 3.0\<rparr>)"

text \<open>
  Lines 119--179: one iteration of \<open>while True\<close>. An \<open>Exception\<close> is recorded and the
  loop goes on to sleep; \<open>CancelledError\<close> is not caught and ends the coroutine.
\<close>

definition listener_cycle :: "config \<Rightarrow> state \<Rightarrow> listener_env \<Rightarrow> state" where
  "listener_cycle cfg s env =
     (if \<not> listener_alive s then s
      else
        (case listener_try cfg env s of
           (s', None) \<Rightarrow> adjust_interval s'
         | (s', Some (Exception text)) \<Rightarrow>
             (add_error (error_time env) ((ascii ''Listener error: '') @ text) s')\<lparr>poll_interval := 3.0\<rparr>
         | (s', Some CancelledError) \<Rightarrow> s'\<lparr>listener_alive := False\<rparr>))"

text \<open>Lines 107--114: the state in which the listener starts.\<close>

definition listener_start :: "state \<Rightarrow> state" where
  "listener_start s =
     s\<lparr>processed_order := [], processed_set := {}, sent_buffer := [],
       poll_interval := 1.0, had_messages := False, listener_alive := True\<rparr>"

definition run_listener :: "config \<Rightarrow> state \<Rightarrow> listener_env list \<Rightarrow> state" where
  "run_listener cfg s envs = foldl (listener_cycle cfg) s envs"

section \<open>The heartbeat monitor\<close>

text \<open>\<open>str()\<close> of a Python integer, for the text of the error entry.\<close>

definition digit_char :: "nat \<Rightarrow> nat" where
  "digit_char d = cp CHR ''0'' + d"

fun nat_digits :: "nat \<Rightarrow> str" where
  "nat_digits n = (if n < 10 then [digit_char n] else nat_digits (n div 10) @ [digit_char (n mod 10)])"

definition py_str_int :: "int \<Rightarrow> str" where
  "py_str_int i = (if i < 0 then (cp CHR ''-'') # nat_digits (nat (- i)) else nat_digits (nat i))"

text \<open>
  What the outside world answers during one tick: the clock read for
  \<open>last_heartbeat\<close>, the status \<open>bot._synccheck()\<close> returns, the result of
  \<open>bot._load_session()\<close>, the value \<open>bot.is_logged_in\<close> has after
  \<open>bot.check_login_status(poll=True)\<close>, and the time stamped on an error entry.
\<close>

record heartbeat_env =
  tick_time :: real
  synccheck :: "exn + str"
  load_session :: "exn + unit"
  relogin :: "exn + bool"
  hb_error_time :: real

text \<open>Lines 233--236: the reconnect attempt, after the wait of \<open>reconnect_delay\<close>.\<close>

definition reconnect_step :: "heartbeat_env \<Rightarrow> state \<Rightarrow> state \<times> exn option" where
  "reconnect_step env s =
     (let s1 = log_call LoadSession s in
      case load_session env of
        Inl e \<Rightarrow> (s1, Some e)
      | Inr _ \<Rightarrow>
          (let s2 = log_call CheckLogin s1 in
           case relogin env of
             Inl e \<Rightarrow> (s2, Some e)
           | Inr b \<Rightarrow> (s2\<lparr>is_logged_in := b\<rparr>, None)))"

text \<open>Lines 222--240: the statements inside \<open>try\<close>.\<close>

definition heartbeat_try :: "config \<Rightarrow> heartbeat_env \<Rightarrow> state \<Rightarrow> state \<times> exn option" where
  "heartbeat_try cfg env s =
     (let s1 = s\<lparr>last_heartbeat := tick_time env\<rparr> in
      if is_logged_in s1 then
        (case synccheck env of
           Inl e \<Rightarrow> (log_call SyncCheck s1, Some e)
         | Inr status \<Rightarrow>
             (let s2 = log_call SyncCheck s1 in
              if status = (ascii ''loginout'') then
                (let s3 = s2\<lparr>is_logged_in := False,
                              reconnect_attempts := reconnect_attempts s2 + 1\<rparr>
                 in if reconnect_attempts s3 \<le> max_reconnect_attempts cfg
                    then reconnect_step env s3
                    else (add_error (hb_error_time env)
                            ((ascii ''Max reconnect attempts ('') @ py_str_int (max_reconnect_attempts cfg)
                               @ (ascii '') reached'')) s3, None))
              else (s2, None)))
      else (s1, None))"

text \<open>Lines 220--243: one iteration of the monitor's \<open>while True\<close>.\<close>

definition heartbeat_tick :: "config \<Rightarrow> state \<Rightarrow> heartbeat_env \<Rightarrow> state" where
  "heartbeat_tick cfg s env =
     (if \<not> heartbeat_alive s then s
      else
        (case heartbeat_try cfg env s of
           (s', None) \<Rightarrow> s'
         | (s', Some (Exception text)) \<Rightarrow>
             add_error (hb_error_time env) ((ascii ''Heartbeat error: '') @ text) s'
         | (s', Some CancelledError) \<Rightarrow> s'\<lparr>heartbeat_alive := False\<rparr>))"

section \<open>The two loops together\<close>

text \<open>
  The loops are coroutines of one event loop. A run is a sequence of listener cycles
  and heartbeat ticks, each taken as one step, and of the moments a route of the API
  (\<open>/wechat/login/status\<close>, \<open>/webui/status\<close>) calls \<open>check_login_status\<close> and leaves
  \<open>bot.is_logged_in\<close> at the value given.
\<close>

datatype event =
    ListenerCycle listener_env
  | HeartbeatTick heartbeat_env
  | ApiLogin bool

fun step :: "config \<Rightarrow> state \<Rightarrow> event \<Rightarrow> state" where
  "step cfg s (ListenerCycle env) = listener_cycle cfg s env"
| "step cfg s (HeartbeatTick env) = heartbeat_tick cfg s env"
| "step cfg s (ApiLogin b) = s\<lparr>is_logged_in := b\<rparr>"

definition run :: "config \<Rightarrow> state \<Rightarrow> event list \<Rightarrow> state" where
  "run cfg s evs = foldl (step cfg) s evs"

section \<open>Adding a scheduled task (src/routes/framework.py)\<close>

text \<open>
  The request body \<open>TaskCreatePayload\<close> constrains \<open>time_hm\<close> by a regular expression
  and \<open>command\<close> by \<open>min_length=1\<close>. pydantic hands the pattern to the engine it is
  configured with: the Rust crate \<open>regex\<close> by default, or Python's \<open>re\<close>. In both, \<open>\\d\<close>
  is the Unicode class \<open>Nd\<close> of decimal digits, whose members depend on the Unicode
  version of the engine, and \<open>^\<close> matches at the start of the input only. \<open>$\<close> matches
  at the end of the input and, in \<open>re\<close>, also before a line feed that ends the input.
\<close>

record regex_engine =
  decimal_digit :: "nat \<Rightarrow> bool"
  dollar_before_newline :: bool

text \<open>
  The class \<open>Nd\<close> of Unicode 14.0 (the tables of CPython 3.11): the ten code points
  that start at each of these sixty-six zeros. The two engines with these tables.
\<close>

definition nd_zeros :: "nat list" where
  "nd_zeros =
     [48, 1632, 1776, 1984, 2406, 2534, 2662, 2790, 2918, 3046, 3174, 3302, 3430, 3558,
      3664, 3792, 3872, 4160, 4240, 6112, 6160, 6470, 6608, 6784, 6800, 6992, 7088, 7232,
      7248, 42528, 43216, 43264, 43472, 43504, 43600, 44016, 65296, 66720, 68912, 69734,
      69872, 69942, 70096, 70384, 70736, 70864, 71248, 71360, 71472, 71904, 72016, 72784,
      73040, 73120, 92768, 92864, 93008, 120782, 120792, 120802, 120812, 120822, 123200,
      123632, 125264, 130032]"

definition unicode_nd :: "nat \<Rightarrow> bool" where
  "unicode_nd c = list_ex (\<lambda>z. z \<le> c \<and> c \<le> z + 9) nd_zeros"

definition rust_regex :: regex_engine where
  "rust_regex = \<lparr>decimal_digit = unicode_nd, dollar_before_newline = False\<rparr>"

definition python_re :: regex_engine where
  "python_re = \<lparr>decimal_digit = unicode_nd, dollar_before_newline = True\<rparr>"

text \<open>
  The fragment of regular expressions the pattern uses, and a matcher that returns the
  rest of the input after every way of matching a prefix.
\<close>

datatype regex =
    Lit nat
  | Digit
  | Range nat nat
  | OneOf str
  | Seq regex regex
  | Alt regex regex

definition in_range :: "nat \<Rightarrow> nat \<Rightarrow> nat \<Rightarrow> bool" where
  "in_range lo hi c = (lo \<le> c \<and> c \<le> hi)"

fun match_prefix :: "regex_engine \<Rightarrow> regex \<Rightarrow> str \<Rightarrow> str list" where
  "match_prefix eng (Lit a) s = (case s of [] \<Rightarrow> [] | c # cs \<Rightarrow> if c = a then [cs] else [])"
| "match_prefix eng Digit s =
     (case s of [] \<Rightarrow> [] | c # cs \<Rightarrow> if decimal_digit eng c then [cs] else [])"
| "match_prefix eng (Range lo hi) s =
     (case s of [] \<Rightarrow> [] | c # cs \<Rightarrow> if in_range lo hi c then [cs] else [])"
| "match_prefix eng (OneOf as) s =
     (case s of [] \<Rightarrow> [] | c # cs \<Rightarrow> if c \<in> set as then [cs] else [])"
| "match_prefix eng (Seq r1 r2) s = concat (map (match_prefix eng r2) (match_prefix eng r1 s))"
| "match_prefix eng (Alt r1 r2) s = match_prefix eng r1 s @ match_prefix eng r2 s"

text \<open>
  A pattern anchored by \<open>^\<close> and \<open>$\<close> matches when some way of matching consumes the
  whole input or, where the engine lets \<open>$\<close> match there, all of it but a final line
  feed (U+000A).
\<close>

definition full_match :: "regex_engine \<Rightarrow> regex \<Rightarrow> str \<Rightarrow> bool" where
  "full_match eng r s =
     ([] \<in> set (match_prefix eng r s)
      \<or> (dollar_before_newline eng \<and> [10] \<in> set (match_prefix eng r s)))"

text \<open>Line 72: \<^verbatim>\<open>^([01]\d|2[0-3]):[0-5]\d$\<close>.\<close>

definition time_hm_pattern :: regex where
  "time_hm_pattern =
     Seq (Alt (Seq (OneOf (ascii ''01'')) Digit) (Seq (Lit (cp CHR ''2'')) (Range (cp CHR ''0'') (cp CHR ''3''))))
         (Seq (Lit (cp CHR '':'')) (Seq (Range (cp CHR ''0'') (cp CHR ''5'')) Digit))"

record task_create_payload =
  time_hm :: str
  command :: str
  description :: str

definition payload_valid :: "regex_engine \<Rightarrow> task_create_payload \<Rightarrow> bool" where
  "payload_valid eng p = (full_match eng time_hm_pattern (time_hm p) \<and> 1 \<le> length (command p))"

record task =
  task_id :: str
  task_time_hm :: str
  command_text :: str
  enabled :: bool
  task_description :: str

text \<open>
  The format the specification names for \<open>timeHM\<close>: two decimal digits of an hour from
  00 to 23, a colon, two decimal digits of a minute from 00 to 59.
\<close>

definition two_digits :: "nat \<Rightarrow> str" where
  "two_digits n = [digit_char (n div 10), digit_char (n mod 10)]"

definition hh_mm :: "nat \<Rightarrow> nat \<Rightarrow> str" where
  "hh_mm h m = two_digits h @ (ascii '':'') @ two_digits m"

definition valid_time_hm :: "str \<Rightarrow> bool" where
  "valid_time_hm s = (\<exists>h \<in> set [0..<24]. \<exists>m \<in> set [0..<60]. s = hh_mm h m)"

text \<open>
  Modelled from the spec: \<open>CommandProcessor.add_task\<close> (module \<open>processor\<close>, which the
  route calls and which is not among the sources). The specification says that
  \<open>add(timeHM, commandText, description)\<close> validates that \<open>timeHM\<close> matches \<open>HH:MM\<close>
  (00--23 : 00--59), rejects otherwise, and returns the task. The identifier the
  processor generates and the text of the exception it raises are parameters.
\<close>

definition add_task :: "str \<Rightarrow> str \<Rightarrow> str \<Rightarrow> str \<Rightarrow> str \<Rightarrow> str + task" where
  "add_task new_id why t c d =
     (if valid_time_hm t
      then Inr \<lparr>task_id = new_id, task_time_hm = t, command_text = c, enabled = True,
                task_description = d\<rparr>
      else Inl why)"

text \<open>
  What the caller of \<open>POST /framework/tasks\<close> receives: the task, the framework's
  response 422 to a body that fails validation, or the response 400 the route raises
  with the text of the exception.
\<close>

datatype response = Created task | Unprocessable | BadRequest str

text \<open>
  Lines 121--132. The application state is the task table of the processor and the
  state of the background loops, whose \<open>errors\<close> the health routes read.
\<close>

record app =
  tasks :: "task list"
  background :: state

definition framework_add_task ::
    "regex_engine \<Rightarrow> str \<Rightarrow> str \<Rightarrow> task_create_payload \<Rightarrow> app \<Rightarrow> app \<times> response" where
  "framework_add_task eng new_id why p a =
     (if \<not> payload_valid eng p then (a, Unprocessable)
      else
        (case add_task new_id why (time_hm p) (command p) (description p) of
           Inl detail \<Rightarrow> (a, BadRequest detail)
         | Inr t \<Rightarrow> (a\<lparr>tasks := tasks a @ [t]\<rparr>, Created t)))"

section \<open>Vocabulary of the properties\<close>

definition bounded :: "state \<Rightarrow> bool" where
  "bounded s = (length (processed_order s) \<le> 5000 \<and> length (sent_buffer s) \<le> 40)"

definition listener_env_ok :: listener_env where
  "listener_env_ok =
     \<lparr>check_login = Inr True, fetch = Inr [],
      respond = (\<lambda>m. \<lparr>download_result = Inr (), process_result = Inr None,
                       send_result = Inr True, clock = 0\<rparr>),
      error_time = 0\<rparr>"

definition state0 :: state where
  "state0 =
     \<lparr>is_logged_in = True, reconnect_attempts = 0, last_heartbeat = 0, last_message_time = 0,
      total_messages = 0, errors = [], processed_order = [], processed_set = {},
      sent_buffer = [], poll_interval = 1.0, had_messages = False, listener_alive = True,
      heartbeat_alive = True, calls = []\<rparr>"

definition config0 :: config where
  "config0 = \<lparr>auto_download = True, max_reconnect_attempts = 10\<rparr>"

definition text_msg :: "str \<Rightarrow> str \<Rightarrow> msg" where
  "text_msg i t = \<lparr>msg_text = t, msg_id = i, msg_type = (ascii ''text''), file_name = []\<rparr>"

definition pong_env :: listener_env where
  "pong_env =
     listener_env_ok\<lparr>respond := (\<lambda>m. \<lparr>download_result = Inr (), process_result = Inr (Some (ascii ''pong'')),
                                        send_result = Inr True, clock = 0\<rparr>)\<rparr>"

definition full_state :: state where
  "full_state =
     state0\<lparr>processed_order := replicate 5000 (ascii ''k''), processed_set := {(ascii ''k'')},
            sent_buffer := replicate 40 (ascii ''r'')\<rparr>"

definition untouched :: "state \<Rightarrow> state \<Rightarrow> bool" where
  "untouched s t =
     (errors t = errors s \<and> poll_interval t = poll_interval s
      \<and> listener_alive t = listener_alive s \<and> heartbeat_alive t = heartbeat_alive s
      \<and> last_heartbeat t = last_heartbeat s)"

definition boom_env :: listener_env where
  "boom_env = listener_env_ok\<lparr>fetch := Inl (Exception (ascii ''boom'')), error_time := 7\<rparr>"

definition echo_state :: state where
  "echo_state = state0\<lparr>sent_buffer := [(ascii ''pong'')]\<rparr>"

text \<open>
  The text \<open>pong\<close> between an ideographic space (U+3000) and a no-break space (U+00A0);
  and the state in which the buffered reply itself ends in an ideographic space.
\<close>

definition padded_pong :: str where
  "padded_pong = [12288] @ (ascii ''pong'') @ [160]"

definition wide_echo_state :: state where
  "wide_echo_state = state0\<lparr>sent_buffer := [(ascii ''pong'') @ [12288]]\<rparr>"

definition is_process :: "call \<Rightarrow> bool" where
  "is_process c = (case c of Process _ \<Rightarrow> True | _ \<Rightarrow> False)"

text \<open>The calls made between two states of one run.\<close>

definition calls_since :: "state \<Rightarrow> state \<Rightarrow> call list" where
  "calls_since s t = drop (length (calls s)) (calls t)"

text \<open>
  The three reasons for which the loop passes over a message: its key is empty, its
  key has been seen, or its text is one of the replies in \<open>sent_buffer\<close>.
\<close>

definition skipped :: "state \<Rightarrow> msg \<Rightarrow> bool" where
  "skipped s m =
     (unique_key_of m = [] \<or> unique_key_of m \<in> processed_set s
      \<or> (strip (msg_text m) \<noteq> [] \<and> strip (msg_text m) \<in> set (sent_buffer s)))"

text \<open>
  Whether the loop passes over every message of a batch, taken in the order of the
  loop, given the keys seen so far and the buffered replies: a message passed over as an
  echo leaves its key behind, so that a later message of the same batch with that key
  is passed over as a duplicate.
\<close>

fun all_skipped :: "str set \<Rightarrow> str list \<Rightarrow> msg list \<Rightarrow> bool" where
  "all_skipped seen sent [] = True"
| "all_skipped seen sent (m # ms) =
     (if unique_key_of m = [] \<or> unique_key_of m \<in> seen then all_skipped seen sent ms
      else strip (msg_text m) \<noteq> [] \<and> strip (msg_text m) \<in> set sent
           \<and> all_skipped (insert (unique_key_of m) seen) sent ms)"

text \<open>
  How a state inside a cycle relates to the state the cycle started in, before the
  first message is handled: no dispatch yet, and the structures of the deduplication
  as they were.
\<close>

definition entry :: "state \<Rightarrow> state \<Rightarrow> bool" where
  "entry s t =
     (\<not> had_messages t \<and> processed_set t = processed_set s
      \<and> processed_order t = processed_order s \<and> sent_buffer t = sent_buffer s
      \<and> poll_interval t = poll_interval s
      \<and> (\<exists>pre. calls t = calls s @ pre \<and> (\<forall>c \<in> set pre. \<not> is_process c)))"

definition seen_state :: state where
  "seen_state = state0\<lparr>processed_set := {(ascii ''1'')}, processed_order := [(ascii ''1'')],
                       sent_buffer := [(ascii ''pong'')]\<rparr>"

definition skipped_batch :: "msg list" where
  "skipped_batch = [text_msg (ascii ''2'') (ascii ''pong''), text_msg [] (ascii ''  ''), text_msg (ascii ''1'') (ascii ''hello'')]"

text \<open>
  A batch, newest first, whose older message is an echo and whose newer message has the
  same identifier; and a batch of one message without identifier whose text is an
  ideographic space (U+3000).
\<close>

definition duplicate_batch :: "msg list" where
  "duplicate_batch = [text_msg (ascii ''5'') (ascii ''other''), text_msg (ascii ''5'') (ascii ''pong'')]"

definition wide_space_batch :: "msg list" where
  "wide_space_batch = [text_msg [] [12288]]"

definition ping_env :: listener_env where
  "ping_env = pong_env\<lparr>fetch := Inr [text_msg (ascii ''2'') (ascii ''/ping'')]\<rparr>"

text \<open>
  An idle cycle: the \<open>try\<close> block ends without an exception and without having
  dispatched a message. A run of idle cycles.
\<close>

definition idle_cycle :: "config \<Rightarrow> state \<Rightarrow> listener_env \<Rightarrow> bool" where
  "idle_cycle cfg s env =
     (case listener_try cfg env s of
        (s', r) \<Rightarrow> r = None \<and> list_all (\<lambda>c. \<not> is_process c) (calls_since s s'))"

fun idle_run :: "config \<Rightarrow> state \<Rightarrow> listener_env list \<Rightarrow> bool" where
  "idle_run cfg s [] = True"
| "idle_run cfg s (env # envs) = (idle_cycle cfg s env \<and> idle_run cfg (listener_cycle cfg s env) envs)"

text \<open>
  The doubles 1.0, 1.2, 1.44, 1.728, 2.0736, 2.48832 and 2.9859839999999997 (as Python
  prints them), each given exactly as \<open>float.as_integer_ratio\<close> gives it, and 3.0 from
  the seventh on.
\<close>

definition backoff_table :: "nat \<Rightarrow> real" where
  "backoff_table k =
     (if 7 \<le> k then 3
      else [1, 5404319552844595 / 2 ^ 52, 3242591731706757 / 2 ^ 51,
            7782220156096217 / 2 ^ 52, 2334666046828865 / 2 ^ 50,
            1400799628097319 / 2 ^ 49, 6723838214867131 / 2 ^ 51] ! k)"

text \<open>A cycle that fetches two messages; the processor handles the older one and raises
  on the newer one.\<close>

definition failing_env :: listener_env where
  "failing_env =
     listener_env_ok
       \<lparr>fetch := Inr [text_msg (ascii ''2'') (ascii ''boom''), text_msg (ascii ''1'') (ascii ''hi'')],
        respond := (\<lambda>m. \<lparr>download_result = Inr (),
                          process_result = (if msg_id m = (ascii ''2'')
                                            then Inl (Exception (ascii ''handler failed'')) else Inr None),
                          send_result = Inr True, clock = 0\<rparr>)\<rparr>"

text \<open>
  A logout detection: the monitor is alive, the bot counts as logged in, and the
  liveness probe answers \<open>loginout\<close>. An episode the monitor recovers itself: the
  detection, then a session that loads and a login check that succeeds.
\<close>

definition detects :: "state \<Rightarrow> heartbeat_env \<Rightarrow> bool" where
  "detects s env = (heartbeat_alive s \<and> is_logged_in s \<and> synccheck env = Inr (ascii ''loginout''))"

definition recovered :: "heartbeat_env \<Rightarrow> bool" where
  "recovered env =
     (synccheck env = Inr (ascii ''loginout'') \<and> load_session env = Inr () \<and> relogin env = Inr True)"

definition recovering_env :: heartbeat_env where
  "recovering_env =
     \<lparr>tick_time = 30, synccheck = Inr (ascii ''loginout''), load_session = Inr (),
      relogin = Inr True, hb_error_time = 31\<rparr>"

definition failing_hb_env :: heartbeat_env where
  "failing_hb_env = recovering_env\<lparr>relogin := Inr False\<rparr>"

text \<open>
  The step of a run in which the listener resets the counter, the steps in which the
  monitor detects a logout, and the runs in which the listener never resets the counter.
\<close>

definition resets_counter :: "state \<Rightarrow> event \<Rightarrow> bool" where
  "resets_counter s ev =
     (case ev of
        ListenerCycle env \<Rightarrow> listener_alive s \<and> \<not> is_logged_in s \<and> check_login env = Inr True
      | _ \<Rightarrow> False)"

definition detected :: "state \<Rightarrow> event \<Rightarrow> bool" where
  "detected s ev = (case ev of HeartbeatTick env \<Rightarrow> detects s env | _ \<Rightarrow> False)"

fun no_listener_reset :: "config \<Rightarrow> state \<Rightarrow> event list \<Rightarrow> bool" where
  "no_listener_reset cfg s [] = True"
| "no_listener_reset cfg s (ev # evs) =
     (\<not> resets_counter s ev \<and> no_listener_reset cfg (step cfg s ev) evs)"

fun detections :: "config \<Rightarrow> state \<Rightarrow> event list \<Rightarrow> nat" where
  "detections cfg s [] = 0"
| "detections cfg s (ev # evs) =
     (if detected s ev then 1 else 0) + detections cfg (step cfg s ev) evs"

definition exhaustion_text :: "config \<Rightarrow> str" where
  "exhaustion_text cfg =
     (ascii ''Max reconnect attempts ('') @ py_str_int (max_reconnect_attempts cfg) @ (ascii '') reached'')"

text \<open>
  Eleven logouts in a row, each detected by the monitor, whose reconnect fails each
  time; between them the user logs in again through the API. Then the listener finds
  the login restored, and the monitor detects a twelfth logout.
\<close>

definition eleven_logouts :: "event list" where
  "eleven_logouts =
     concat (replicate 10 [HeartbeatTick failing_hb_env, ApiLogin True])
     @ [HeartbeatTick failing_hb_env]"

definition after_exhaustion :: "event list" where
  "after_exhaustion = [ListenerCycle listener_env_ok, HeartbeatTick failing_hb_env]"

text \<open>
  An engine whose \<open>\\d\<close> is, on the ASCII range, the digits 0 to 9 (so it is in
  every version of Unicode), and a \<open>str\<close> of ASCII code points only.
\<close>

definition ascii_digits :: "regex_engine \<Rightarrow> bool" where
  "ascii_digits eng = list_all (\<lambda>c. decimal_digit eng c = (48 \<le> c \<and> c \<le> 57)) [0..<128]"

definition ascii_only :: "str \<Rightarrow> bool" where
  "ascii_only s = list_all (\<lambda>c. c < 128) s"

definition good_payload :: task_create_payload where
  "good_payload = \<lparr>time_hm = (ascii ''09:00''), command = (ascii ''/status''), description = []\<rparr>"

definition app0 :: app where
  "app0 = \<lparr>tasks = [], background = state0\<rparr>"

definition bad_payload :: task_create_payload where
  "bad_payload = \<lparr>time_hm = (ascii ''24:00''), command = (ascii ''/status''), description = []\<rparr>"

text \<open>
  Two bodies that pass the pattern without having the format: \<open>1\<close>, the Arabic-Indic
  digit three (U+0663) and \<open>:00\<close>; and \<open>12:30\<close> followed by a line feed.
\<close>

definition arabic_payload :: task_create_payload where
  "arabic_payload =
     \<lparr>time_hm = [cp CHR ''1'', 1635] @ (ascii '':00''), command = (ascii ''/status''), description = []\<rparr>"

definition newline_payload :: task_create_payload where
  "newline_payload =
     \<lparr>time_hm = (ascii ''12:30'') @ [10], command = (ascii ''/status''), description = []\<rparr>"

text \<open>
  Messages with identifiers \<open>k\<close>, \<open>kk\<close>, \<open>kkk\<close>, ... and no text, to which the
  processor gives no reply; the poll that returns the messages numbered \<open>ns\<close>, newest
  first; and polls that return twelve new messages each.
\<close>

definition key :: "nat \<Rightarrow> str" where
  "key n = replicate (Suc n) (cp CHR ''k'')"

definition fresh_msg :: "nat \<Rightarrow> msg" where
  "fresh_msg n = text_msg (key n) []"

definition fresh_env :: "nat list \<Rightarrow> listener_env" where
  "fresh_env ns = listener_env_ok\<lparr>fetch := Inr (map fresh_msg (rev ns))\<rparr>"

definition batch :: "nat \<Rightarrow> nat list" where
  "batch c = [12 * c ..< 12 * c + 12]"

definition fresh_cycles :: "nat \<Rightarrow> listener_env list" where
  "fresh_cycles n = map (\<lambda>c. fresh_env (batch c)) [0..<n]"

text \<open>
  What holds of the structures of the deduplication at every moment: every key of
  \<open>processed_order\<close> is in \<open>processed_set\<close>, no key is twice in \<open>processed_order\<close>, and
  \<open>processed_set\<close> is finite. And the bound on the drift: at most 100 keys of
  \<open>processed_set\<close> are no longer in \<open>processed_order\<close>.
\<close>

definition drift_inv :: "state \<Rightarrow> bool" where
  "drift_inv s =
     (set (processed_order s) \<subseteq> processed_set s \<and> distinct (processed_order s)
      \<and> finite (processed_set s))"

definition drift :: "state \<Rightarrow> nat" where
  "drift s = card (processed_set s - set (processed_order s))"

text \<open>
  A poll that returns one new message on which the processor raises; and the run of
  425 polls of twelve new messages each, followed by that poll.
\<close>

definition raising_env :: listener_env where
  "raising_env =
     listener_env_ok
       \<lparr>fetch := Inr [fresh_msg 5100],
        respond := (\<lambda>m. \<lparr>download_result = Inr (),
                          process_result = Inl (Exception (ascii ''handler failed'')),
                          send_result = Inr True, clock = 0\<rparr>)\<rparr>"

definition drift_run :: "listener_env list" where
  "drift_run = fresh_cycles 425 @ [raising_env]"

definition drifted_state :: state where
  "drifted_state = state0\<lparr>processed_set := key ` {0..<101}\<rparr>"

text \<open>
  How often the processor was called on a message with the key \<open>k\<close>; the keys of the
  messages a poll returns; the non-empty keys delivered in a run; and what holds of
  the deduplication while all keys delivered belong to a set \<open>D\<close>.
\<close>

definition dispatches :: "str \<Rightarrow> state \<Rightarrow> nat" where
  "dispatches k s =
     length (filter (\<lambda>c. case c of Process m \<Rightarrow> unique_key_of m = k | _ \<Rightarrow> False) (calls s))"





section \<open>Verified properties\<close>

subsection \<open>Sequencing and the bounded buffers\<close>

lemma and_then_alt: "and_then r f = (case snd r of None \<Rightarrow> f (fst r) | Some e \<Rightarrow> r)"
  by (cases r; cases "snd r") auto

lemma and_then_pres:
  assumes "P (fst r)" and "\<And>s. P s \<Longrightarrow> P (fst (f s))"
  shows "P (fst (and_then r f))"
  using assms by (cases r; cases "snd r") auto

lemma length_deque_append: "length xs \<le> n \<Longrightarrow> length (deque_append n xs x) \<le> n"
  by (simp add: deque_append_def Let_def)

lemma deque_append_full: "length xs = n \<Longrightarrow> 0 < n \<Longrightarrow> deque_append n xs x = tl xs @ [x]"
  by (cases xs) (simp_all add: deque_append_def Let_def)

lemma download_step_keeps:
  "processed_order (fst (download_step cfg env m s)) = processed_order s"
  "processed_set (fst (download_step cfg env m s)) = processed_set s"
  "sent_buffer (fst (download_step cfg env m s)) = sent_buffer s"
  "had_messages (fst (download_step cfg env m s)) = had_messages s"
  by (auto simp: download_step_def log_call_def split: sum.splits)

lemma reply_step_keeps:
  "processed_order (fst (reply_step env m s)) = processed_order s"
  "processed_set (fst (reply_step env m s)) = processed_set s"
  "had_messages (fst (reply_step env m s)) = had_messages s"
  by (auto simp: reply_step_def log_call_def Let_def split: sum.splits)

lemma count_message_keeps:
  "processed_order (fst (count_message env m s)) = processed_order s"
  "processed_set (fst (count_message env m s)) = processed_set s"
  "sent_buffer (fst (count_message env m s)) = sent_buffer s"
  "had_messages (fst (count_message env m s)) = had_messages s"
  "calls (fst (count_message env m s)) = calls s"
  "snd (count_message env m s) = None"
  by (simp_all add: count_message_def)

lemma handle_msg_order:
  "processed_order (fst (handle_msg cfg env m s)) =
     (if unique_key_of m = [] \<or> unique_key_of m \<in> processed_set s then processed_order s
      else deque_append 5000 (processed_order s) (unique_key_of m))"
  by (simp add: handle_msg_def Let_def and_then_alt download_step_keeps reply_step_keeps
        count_message_keeps split: option.splits)

lemma handle_msg_set:
  "processed_set (fst (handle_msg cfg env m s)) =
     (if unique_key_of m = [] then processed_set s
      else insert (unique_key_of m) (processed_set s))"
  by (auto simp: handle_msg_def Let_def and_then_alt download_step_keeps reply_step_keeps
        count_message_keeps split: option.splits)

lemma reply_step_sent_length:
  "length (sent_buffer s) \<le> 40 \<Longrightarrow> length (sent_buffer (fst (reply_step env m s))) \<le> 40"
  by (auto simp: reply_step_def log_call_def Let_def length_deque_append split: sum.splits)

lemma handle_msg_sent_length:
  "length (sent_buffer s) \<le> 40 \<Longrightarrow> length (sent_buffer (fst (handle_msg cfg env m s))) \<le> 40"
  by (simp add: handle_msg_def Let_def and_then_alt download_step_keeps reply_step_sent_length
        count_message_keeps split: option.splits)

lemma bounded_handle_msg: "bounded s \<Longrightarrow> bounded (fst (handle_msg cfg env m s))"
  by (simp add: bounded_def handle_msg_order handle_msg_sent_length length_deque_append)

lemma bounded_for_messages: "bounded s \<Longrightarrow> bounded (fst (for_messages cfg env ms s))"
proof (induction ms arbitrary: s)
  case Nil
  then show ?case by simp
next
  case (Cons m ms)
  show ?case
    unfolding for_messages.simps
    by (rule and_then_pres[where P=bounded]) (auto intro: bounded_handle_msg Cons)
qed

lemma bounded_resync: "bounded s \<Longrightarrow> bounded (fst (resync s))"
  by (simp add: resync_def bounded_def)

lemma bounded_login_check: "bounded s \<Longrightarrow> bounded (fst (login_check env s))"
  by (auto simp: login_check_def bounded_def log_call_def Let_def split: sum.splits)

lemma bounded_poll_messages: "bounded s \<Longrightarrow> bounded (fst (poll_messages cfg env s))"
proof -
  assume b: "bounded s"
  then have b1: "bounded (log_call GetLatest s)" by (simp add: bounded_def log_call_def)
  have "\<And>ms. bounded (fst (and_then (for_messages cfg env ms (log_call GetLatest s)) resync))"
    by (intro and_then_pres[where P=bounded] bounded_for_messages bounded_resync b1)
  with b b1 show ?thesis
    by (auto simp: poll_messages_def split: sum.splits)
qed

lemma bounded_listener_try: "bounded s \<Longrightarrow> bounded (fst (listener_try cfg env s))"
  unfolding listener_try_def
  by (intro and_then_pres[where P=bounded] bounded_login_check bounded_poll_messages)
     (simp_all add: bounded_def)

lemma bounded_listener_cycle: "bounded s \<Longrightarrow> bounded (listener_cycle cfg s env)"
proof -
  assume b: "bounded s"
  obtain s' r where t: "listener_try cfg env s = (s', r)" by (cases "listener_try cfg env s")
  with bounded_listener_try[OF b, of cfg env] have "bounded s'" by simp
  with b show ?thesis
    by (auto simp: listener_cycle_def t bounded_def adjust_interval_def add_error_def Let_def
          split: option.splits exn.splits)
qed

lemma bounded_run_listener: "bounded s \<Longrightarrow> bounded (run_listener cfg s envs)"
  unfolding run_listener_def
  by (induction envs arbitrary: s) (simp_all add: bounded_listener_cycle)

lemma bounded_listener_start: "bounded (listener_start s)"
  by (simp add: bounded_def listener_start_def)

text \<open>
  C5 (bounded memory). Whatever the transport and the processor answer, after any
  sequence of poll cycles from the start of the listener \<open>processed_order\<close> holds at most
  5000 keys and \<open>sent_buffer\<close> at most 40 replies, and handling one more message keeps
  both bounds. When \<open>processed_order\<close> holds 5000 keys, recording a new key drops the
  oldest one; when \<open>sent_buffer\<close> holds 40 replies, a reply that was sent drops the oldest
  one.
\<close>

theorem bounded_memory:
  "bounded (run_listener cfg (listener_start s) envs)
   \<and> (bounded t \<longrightarrow> bounded (fst (handle_msg cfg env m t)))
   \<and> (length (processed_order t) = 5000 \<and> unique_key_of m \<noteq> []
        \<and> unique_key_of m \<notin> processed_set t
      \<longrightarrow> processed_order (fst (handle_msg cfg env m t))
            = tl (processed_order t) @ [unique_key_of m])
   \<and> (length (sent_buffer t) = 40 \<and> process_result (respond env m) = Inr (Some r) \<and> r \<noteq> []
        \<and> send_result (respond env m) = Inr True
      \<longrightarrow> sent_buffer (fst (reply_step env m t)) = tl (sent_buffer t) @ [r])"
proof (intro conjI impI)
  show "bounded (run_listener cfg (listener_start s) envs)"
    by (rule bounded_run_listener[OF bounded_listener_start])
next
  assume "bounded t"
  then show "bounded (fst (handle_msg cfg env m t))" by (rule bounded_handle_msg)
next
  assume "length (processed_order t) = 5000 \<and> unique_key_of m \<noteq> []
        \<and> unique_key_of m \<notin> processed_set t"
  then show "processed_order (fst (handle_msg cfg env m t))
            = tl (processed_order t) @ [unique_key_of m]"
    by (simp add: handle_msg_order deque_append_full)
next
  assume "length (sent_buffer t) = 40 \<and> process_result (respond env m) = Inr (Some r) \<and> r \<noteq> []
        \<and> send_result (respond env m) = Inr True"
  then show "sent_buffer (fst (reply_step env m t)) = tl (sent_buffer t) @ [r]"
    by (simp add: reply_step_def Let_def truthy_def log_call_def deque_append_full)
qed

theorem bounded_memory_witness:
  "bounded full_state
   \<and> length (processed_order full_state) = 5000
   \<and> unique_key_of (text_msg (ascii ''1'') (ascii ''/ping'')) \<notin> processed_set full_state
   \<and> length (sent_buffer full_state) = 40
   \<and> bounded (fst (handle_msg config0 pong_env (text_msg (ascii ''1'') (ascii ''/ping'')) full_state))
   \<and> processed_order (fst (handle_msg config0 pong_env (text_msg (ascii ''1'') (ascii ''/ping'')) full_state))
       = tl (processed_order full_state) @ [(ascii ''1'')]
   \<and> sent_buffer (fst (reply_step pong_env (text_msg (ascii ''1'') (ascii ''/ping'')) full_state))
       = tl (sent_buffer full_state) @ [(ascii ''pong'')]"
proof -
  have k: "unique_key_of (text_msg (ascii ''1'') (ascii ''/ping'')) = (ascii ''1'')"
    by (simp add: unique_key_of_def text_msg_def strip_def py_isspace_def)
  have b: "bounded full_state"
    by (simp add: bounded_def full_state_def state0_def)
  have l: "length (processed_order full_state) = 5000" "length (sent_buffer full_state) = 40"
    "processed_set full_state = {(ascii ''k'')}"
    by (simp_all add: full_state_def state0_def)
  have r: "process_result (respond pong_env (text_msg (ascii ''1'') (ascii ''/ping''))) = Inr (Some (ascii ''pong''))"
    "send_result (respond pong_env (text_msg (ascii ''1'') (ascii ''/ping''))) = Inr True"
    by (simp_all add: pong_env_def listener_env_ok_def)
  show ?thesis
    using bounded_memory[of config0 state0 "[]" full_state pong_env
        "text_msg (ascii ''1'') (ascii ''/ping'')" "(ascii ''pong'')"] k b l r
    by simp
qed

subsection \<open>What the \<open>try\<close> block of the listener never writes\<close>

lemma untouched_refl: "untouched s s"
  by (simp add: untouched_def)

lemma untouched_handle_msg: "untouched s t \<Longrightarrow> untouched s (fst (handle_msg cfg env m t))"
  by (auto simp: untouched_def handle_msg_def Let_def and_then_alt download_step_def
        reply_step_def count_message_def log_call_def split: option.splits sum.splits)

lemma untouched_for_messages: "untouched s t \<Longrightarrow> untouched s (fst (for_messages cfg env ms t))"
proof (induction ms arbitrary: t)
  case Nil
  then show ?case by simp
next
  case (Cons m ms)
  show ?case
    unfolding for_messages.simps
    by (rule and_then_pres[where P="untouched s"]) (auto intro: untouched_handle_msg Cons)
qed

lemma untouched_resync: "untouched s t \<Longrightarrow> untouched s (fst (resync t))"
  by (simp add: resync_def untouched_def)

lemma untouched_log_call: "untouched s t \<Longrightarrow> untouched s (log_call c t)"
  by (simp add: untouched_def log_call_def)

lemma untouched_login_check: "untouched s t \<Longrightarrow> untouched s (fst (login_check env t))"
  by (auto simp: untouched_def login_check_def log_call_def Let_def split: sum.splits)

lemma untouched_poll_messages: "untouched s t \<Longrightarrow> untouched s (fst (poll_messages cfg env t))"
proof -
  assume u: "untouched s t"
  have "\<And>ms. untouched s (fst (and_then (for_messages cfg env ms (log_call GetLatest t)) resync))"
    by (intro and_then_pres[where P="untouched s"] untouched_for_messages untouched_resync
          untouched_log_call u)
  with u untouched_log_call[OF u, of GetLatest] show ?thesis
    by (simp add: poll_messages_def split: sum.splits)
qed

lemma untouched_listener_try: "untouched s (fst (listener_try cfg env s))"
proof -
  have "untouched s (s\<lparr>had_messages := False\<rparr>)" by (simp add: untouched_def)
  then show ?thesis
    unfolding listener_try_def
    by (intro and_then_pres[where P="untouched s"] untouched_login_check untouched_poll_messages)
qed

lemma drop_last_20: "(if length es > 20 then drop (length es - 20) es else es) = drop (length es - 20) es"
  by simp

text \<open>
  C7 (fault boundary of the listener). Whatever statement of a cycle raises an
  \<open>Exception\<close>, the cycle ends with the listener still alive, with the poll interval at
  3.0, and with the entry \<open>Listener error: ...\<close> as the newest of \<open>errors\<close>, which is cut
  to the 20 most recent entries; the run goes on with the next cycle.
\<close>

theorem listener_fault_boundary:
  assumes "listener_alive s"
    and "listener_try cfg env s = (s', Some (Exception why))"
  shows "listener_alive (listener_cycle cfg s env)
     \<and> poll_interval (listener_cycle cfg s env) = 3.0
     \<and> errors (listener_cycle cfg s env)
         = drop (length (errors s) + 1 - 20)
             (errors s @ [\<lparr>err_time = error_time env, err_text = (ascii ''Listener error: '') @ why\<rparr>])
     \<and> length (errors (listener_cycle cfg s env)) \<le> 20
     \<and> run_listener cfg s (env # envs) = run_listener cfg (listener_cycle cfg s env) envs"
proof -
  from untouched_listener_try[of s cfg env] assms(2)
  have u: "errors s' = errors s" "listener_alive s' = listener_alive s"
    by (simp_all add: untouched_def)
  have c: "listener_cycle cfg s env
        = (add_error (error_time env) ((ascii ''Listener error: '') @ why) s')\<lparr>poll_interval := 3.0\<rparr>"
    using assms by (simp add: listener_cycle_def)
  show ?thesis
    unfolding c using u assms(1)
    by (simp add: add_error_def Let_def run_listener_def c)
qed

theorem listener_fault_boundary_witness:
  "listener_alive state0
   \<and> listener_try config0 boom_env state0
       = (state0\<lparr>calls := [GetLatest]\<rparr>, Some (Exception (ascii ''boom'')))
   \<and> listener_alive (listener_cycle config0 state0 boom_env)
   \<and> poll_interval (listener_cycle config0 state0 boom_env) = 3.0
   \<and> errors (listener_cycle config0 state0 boom_env)
       = [\<lparr>err_time = 7, err_text = (ascii ''Listener error: boom'')\<rparr>]"
proof -
  have t: "listener_try config0 boom_env state0
       = (state0\<lparr>calls := [GetLatest]\<rparr>, Some (Exception (ascii ''boom'')))"
    by (simp add: listener_try_def login_check_def poll_messages_def boom_env_def
          listener_env_ok_def state0_def log_call_def)
  have a: "listener_alive state0" by (simp add: state0_def)
  have e: "errors state0 = []" "error_time boom_env = 7"
    by (simp_all add: state0_def boom_env_def listener_env_ok_def)
  show ?thesis
    using listener_fault_boundary[OF a t, of "[]"] by (simp add: t a e)
qed

lemmas listener_defs_early =
  handle_msg_def download_step_def reply_step_def count_message_def log_call_def truthy_def
  unique_key_of_def strip_def py_isspace_def deque_append_def Let_def

text \<open>
  C4 (echo suppression). When the stripped text of a message that has not been seen is
  a non-empty member of \<open>sent_buffer\<close>, handling the message makes no call at all (no
  download, no dispatch, no reply) and raises nothing, and its key is recorded in
  \<open>processed_set\<close> and appended to \<open>processed_order\<close>.
\<close>

theorem echo_suppression:
  assumes "T \<in> set (sent_buffer s)" and "T \<noteq> []"
    and "strip (msg_text m) = T"
    and "unique_key_of m \<notin> processed_set s"
  shows "calls (fst (handle_msg cfg env m s)) = calls s
     \<and> snd (handle_msg cfg env m s) = None
     \<and> had_messages (fst (handle_msg cfg env m s)) = had_messages s
     \<and> sent_buffer (fst (handle_msg cfg env m s)) = sent_buffer s
     \<and> unique_key_of m \<in> processed_set (fst (handle_msg cfg env m s))
     \<and> processed_order (fst (handle_msg cfg env m s))
         = deque_append 5000 (processed_order s) (unique_key_of m)"
proof -
  have "unique_key_of m \<noteq> []"
    using assms(2,3) by (auto simp: unique_key_of_def Let_def)
  then show ?thesis
    using assms by (simp add: handle_msg_def Let_def)
qed

lemma reply_is_buffered:
  assumes "process_result (respond env m) = Inr (Some r)" and "r \<noteq> []"
    and "send_result (respond env m) = Inr True"
  shows "last (sent_buffer (fst (reply_step env m s))) = r"
proof -
  have "last (deque_append 40 xs r) = r" for xs
    by (cases xs) (simp_all add: deque_append_def Let_def last_tl)
  with assms show ?thesis
    by (simp add: reply_step_def Let_def truthy_def log_call_def)
qed

theorem echo_suppression_witness:
  "(ascii ''pong'') \<in> set (sent_buffer echo_state)
   \<and> strip (msg_text (text_msg (ascii ''2'') (ascii '' pong ''))) = (ascii ''pong'')
   \<and> unique_key_of (text_msg (ascii ''2'') (ascii '' pong '')) \<notin> processed_set echo_state
   \<and> calls (fst (handle_msg config0 pong_env (text_msg (ascii ''2'') (ascii '' pong '')) echo_state)) = []
   \<and> (ascii ''2'') \<in> processed_set (fst (handle_msg config0 pong_env (text_msg (ascii ''2'') (ascii '' pong '')) echo_state))
   \<and> processed_order (fst (handle_msg config0 pong_env (text_msg (ascii ''2'') (ascii '' pong '')) echo_state)) = [(ascii ''2'')]
   \<and> strip (msg_text (text_msg (ascii ''3'') padded_pong)) = (ascii ''pong'')
   \<and> calls (fst (handle_msg config0 pong_env (text_msg (ascii ''3'') padded_pong) echo_state)) = []
   \<and> (ascii ''3'') \<in> processed_set (fst (handle_msg config0 pong_env (text_msg (ascii ''3'') padded_pong) echo_state))
   \<and> strip ((ascii ''pong'') @ [12288]) \<notin> set (sent_buffer wide_echo_state)
   \<and> Process (text_msg (ascii ''4'') ((ascii ''pong'') @ [12288]))
        \<in> set (calls (fst (handle_msg config0 pong_env
                               (text_msg (ascii ''4'') ((ascii ''pong'') @ [12288])) wide_echo_state)))"
proof -
  have k: "unique_key_of (text_msg (ascii ''2'') (ascii '' pong '')) = (ascii ''2'')"
    "strip (msg_text (text_msg (ascii ''2'') (ascii '' pong ''))) = (ascii ''pong'')"
    "unique_key_of (text_msg (ascii ''3'') padded_pong) = (ascii ''3'')"
    "strip (msg_text (text_msg (ascii ''3'') padded_pong)) = (ascii ''pong'')"
    by (simp_all add: unique_key_of_def text_msg_def strip_def py_isspace_def padded_pong_def)
  have s: "sent_buffer echo_state = [(ascii ''pong'')]" "processed_set echo_state = {}"
    "calls echo_state = []" "processed_order echo_state = []"
    by (simp_all add: echo_state_def state0_def)
  have h: "(ascii ''pong'') \<in> set (sent_buffer echo_state)" "(ascii ''pong'') \<noteq> []"
    "unique_key_of (text_msg (ascii ''2'') (ascii '' pong '')) \<notin> processed_set echo_state"
    "unique_key_of (text_msg (ascii ''3'') padded_pong) \<notin> processed_set echo_state"
    using s k by simp_all
  have w: "strip ((ascii ''pong'') @ [12288]) \<notin> set (sent_buffer wide_echo_state)"
    "Process (text_msg (ascii ''4'') ((ascii ''pong'') @ [12288]))
        \<in> set (calls (fst (handle_msg config0 pong_env
                               (text_msg (ascii ''4'') ((ascii ''pong'') @ [12288])) wide_echo_state)))"
    by (simp_all add: wide_echo_state_def state0_def listener_defs_early pong_env_def
          listener_env_ok_def config0_def text_msg_def)
  show ?thesis
    using echo_suppression[OF h(1) h(2) k(2) h(3), of config0 pong_env]
      echo_suppression[OF h(1) h(2) k(4) h(4), of config0 pong_env] k s w
    by (simp add: deque_append_def)
qed

subsection \<open>Skipped and dispatched messages\<close>

lemma handle_msg_skipped:
  assumes "skipped t m"
  shows "snd (handle_msg cfg env m t) = None"
    and "calls (fst (handle_msg cfg env m t)) = calls t"
    and "had_messages (fst (handle_msg cfg env m t)) = had_messages t"
    and "sent_buffer (fst (handle_msg cfg env m t)) = sent_buffer t"
  using assms by (auto simp: skipped_def handle_msg_def Let_def)

lemma handle_msg_dispatched:
  assumes "\<not> skipped t m"
  shows "had_messages (fst (handle_msg cfg env m t))"
    and "snd (handle_msg cfg env m t) = None
         \<Longrightarrow> \<exists>cs. calls (fst (handle_msg cfg env m t)) = calls t @ cs \<and> Process m \<in> set cs"
  using assms
  by (auto simp: skipped_def handle_msg_def Let_def and_then_alt download_step_def
        reply_step_def count_message_def log_call_def split: option.splits sum.splits)

lemma handle_msg_extends: "\<exists>cs. calls (fst (handle_msg cfg env m t)) = calls t @ cs"
  by (auto simp: handle_msg_def Let_def and_then_alt download_step_def
        reply_step_def count_message_def log_call_def split: option.splits sum.splits)

lemma handle_msg_had_mono: "had_messages t \<Longrightarrow> had_messages (fst (handle_msg cfg env m t))"
  by (auto simp: handle_msg_def Let_def and_then_alt download_step_keeps reply_step_keeps
        count_message_keeps split: option.splits)

lemma handle_msg_set_mono: "processed_set t \<subseteq> processed_set (fst (handle_msg cfg env m t))"
  by (auto simp: handle_msg_set)

lemma for_messages_extends: "\<exists>cs. calls (fst (for_messages cfg env ms t)) = calls t @ cs"
proof (induction ms arbitrary: t)
  case Nil
  then show ?case by simp
next
  case (Cons m ms)
  obtain cs where 1: "calls (fst (handle_msg cfg env m t)) = calls t @ cs"
    using handle_msg_extends by blast
  obtain cs' where 2: "calls (fst (for_messages cfg env ms (fst (handle_msg cfg env m t))))
      = calls (fst (handle_msg cfg env m t)) @ cs'"
    using Cons by blast
  show ?case
    by (cases "snd (handle_msg cfg env m t)") (simp_all add: and_then_alt 1 2)
qed

lemma for_messages_had_mono:
  "had_messages t \<Longrightarrow> had_messages (fst (for_messages cfg env ms t))"
proof (induction ms arbitrary: t)
  case Nil
  then show ?case by simp
next
  case (Cons m ms)
  show ?case
    unfolding for_messages.simps
    by (rule and_then_pres[where P=had_messages])
       (auto intro: handle_msg_had_mono Cons)
qed

text \<open>A loop over messages that are all skipped calls nothing and raises nothing.\<close>

lemma all_skipped_head:
  assumes "all_skipped (processed_set t) (sent_buffer t) (m # ms)"
  shows "skipped t m"
    and "all_skipped (processed_set (fst (handle_msg cfg env m t))) (sent_buffer t) ms"
proof -
  show "skipped t m"
    using assms by (auto simp: skipped_def split: if_splits)
  show "all_skipped (processed_set (fst (handle_msg cfg env m t))) (sent_buffer t) ms"
  proof (cases "unique_key_of m = []")
    case True
    then show ?thesis using assms by (simp add: handle_msg_set)
  next
    case False
    show ?thesis
    proof (cases "unique_key_of m \<in> processed_set t")
      case True
      then have "insert (unique_key_of m) (processed_set t) = processed_set t" by auto
      then show ?thesis using assms True False by (simp add: handle_msg_set)
    next
      case nin: False
      then show ?thesis using assms False by (simp add: handle_msg_set)
    qed
  qed
qed

lemma for_messages_all_skipped:
  assumes "all_skipped (processed_set t) (sent_buffer t) ms"
  shows "snd (for_messages cfg env ms t) = None
     \<and> calls (fst (for_messages cfg env ms t)) = calls t
     \<and> had_messages (fst (for_messages cfg env ms t)) = had_messages t
     \<and> sent_buffer (fst (for_messages cfg env ms t)) = sent_buffer t"
  using assms
proof (induction ms arbitrary: t)
  case Nil
  then show ?case by simp
next
  case (Cons m ms)
  let ?t1 = "fst (handle_msg cfg env m t)"
  note h = handle_msg_skipped[OF all_skipped_head(1)[OF Cons.prems], of cfg env]
  have "all_skipped (processed_set ?t1) (sent_buffer ?t1) ms"
    using all_skipped_head(2)[OF Cons.prems, of cfg env] h(4) by simp
  from Cons.IH[OF this] have ih: "snd (for_messages cfg env ms ?t1) = None
     \<and> calls (fst (for_messages cfg env ms ?t1)) = calls ?t1
     \<and> had_messages (fst (for_messages cfg env ms ?t1)) = had_messages ?t1
     \<and> sent_buffer (fst (for_messages cfg env ms ?t1)) = sent_buffer ?t1" .
  show ?case
    using ih h by (simp add: and_then_alt)
qed

text \<open>Messages that are to be skipped as the cycle starts are all skipped in the loop.\<close>

lemma skipped_all_skipped:
  assumes "\<forall>m \<in> set ms. skipped s m" and "processed_set s \<subseteq> seen"
  shows "all_skipped seen (sent_buffer s) ms"
  using assms
proof (induction ms arbitrary: seen)
  case Nil
  then show ?case by simp
next
  case (Cons m ms)
  have sk: "skipped s m" using Cons.prems(1) by simp
  have r: "\<forall>m \<in> set ms. skipped s m" using Cons.prems(1) by simp
  show ?case
  proof (cases "unique_key_of m = [] \<or> unique_key_of m \<in> seen")
    case True
    then show ?thesis using Cons.IH[OF r Cons.prems(2)] by simp
  next
    case False
    then have "strip (msg_text m) \<noteq> [] \<and> strip (msg_text m) \<in> set (sent_buffer s)"
      using sk Cons.prems(2) by (auto simp: skipped_def)
    moreover have "processed_set s \<subseteq> insert (unique_key_of m) seen"
      using Cons.prems(2) by auto
    ultimately show ?thesis using False Cons.IH[OF r] by simp
  qed
qed

text \<open>A loop that ends normally with \<open>had_messages\<close> newly set has dispatched a message
  that was not to be skipped.\<close>

lemma for_messages_had:
  assumes "snd (for_messages cfg env ms t) = None"
    and "had_messages (fst (for_messages cfg env ms t))" and "\<not> had_messages t"
  shows "\<exists>m \<in> set ms. \<not> skipped t m
           \<and> Process m \<in> set (calls_since t (fst (for_messages cfg env ms t)))"
  using assms
proof (induction ms arbitrary: t)
  case Nil
  then show ?case by simp
next
  case (Cons m ms)
  let ?t1 = "fst (handle_msg cfg env m t)"
  let ?t2 = "fst (for_messages cfg env ms ?t1)"
  have n1: "snd (handle_msg cfg env m t) = None"
    using Cons.prems(1) by (cases "snd (handle_msg cfg env m t)") (simp_all add: and_then_alt)
  then have e: "for_messages cfg env (m # ms) t = for_messages cfg env ms ?t1"
    by (simp add: and_then_alt)
  obtain cs' where c2: "calls ?t2 = calls ?t1 @ cs'"
    using for_messages_extends by blast
  show ?case
  proof (cases "skipped t m")
    case True
    note h = handle_msg_skipped[OF True, of cfg env]
    have "\<exists>m' \<in> set ms. \<not> skipped ?t1 m' \<and> Process m' \<in> set (calls_since ?t1 ?t2)"
      using Cons.IH[of ?t1] Cons.prems e h by simp
    then obtain m' where m': "m' \<in> set ms" "\<not> skipped ?t1 m'"
      "Process m' \<in> set (calls_since ?t1 ?t2)" by blast
    have "\<not> skipped t m'"
      using m'(2) h(4) handle_msg_set_mono[of t cfg env m] by (auto simp: skipped_def)
    moreover have "calls_since t ?t2 = calls_since ?t1 ?t2"
      by (simp add: calls_since_def h(2))
    ultimately show ?thesis using m' e by auto
  next
    case False
    obtain cs where c1: "calls ?t1 = calls t @ cs" "Process m \<in> set cs"
      using handle_msg_dispatched(2)[OF False n1] by blast
    have "Process m \<in> set (calls_since t ?t2)"
      by (simp add: calls_since_def c1 c2)
    with False e show ?thesis by auto
  qed
qed

text \<open>A loop in which a dispatch was made has set \<open>had_messages\<close>.\<close>

lemma for_messages_process_had:
  assumes "\<exists>c \<in> set (calls_since t (fst (for_messages cfg env ms t))). is_process c"
  shows "had_messages (fst (for_messages cfg env ms t))"
  using assms
proof (induction ms arbitrary: t)
  case Nil
  then show ?case by (simp add: calls_since_def)
next
  case (Cons m ms)
  let ?t1 = "fst (handle_msg cfg env m t)"
  show ?case
  proof (cases "skipped t m")
    case True
    note h = handle_msg_skipped[OF True, of cfg env]
    have e: "for_messages cfg env (m # ms) t = for_messages cfg env ms ?t1"
      using h(1) by (simp add: and_then_alt)
    have "calls_since t (fst (for_messages cfg env ms ?t1))
        = calls_since ?t1 (fst (for_messages cfg env ms ?t1))"
      by (simp add: calls_since_def h(2))
    then show ?thesis
      using Cons.IH[of ?t1] Cons.prems e by simp
  next
    case False
    have "had_messages ?t1" by (rule handle_msg_dispatched(1)[OF False])
    then show ?thesis
      unfolding for_messages.simps
      by (cases "snd (handle_msg cfg env m t)")
         (simp_all add: and_then_alt for_messages_had_mono)
  qed
qed

subsection \<open>The shape of one cycle\<close>

lemma listener_try_cases:
  obtains
    (stopped_early) t r where "entry s t" and "listener_try cfg env s = (t, r)"
      and "r = None \<or> (\<not> is_logged_in s \<and> check_login env = Inl (the r))
             \<or> fetch env = Inl (the r)"
      and "r = None \<longrightarrow> \<not> is_logged_in t"
  | (fetched) t ms where "entry s t" and "fetch env = Inr ms"
      and "listener_try cfg env s = and_then (for_messages cfg env (rev ms) t) resync"
proof -
  let ?s0 = "s\<lparr>had_messages := False\<rparr>"
  have e0: "entry s ?s0" by (simp add: entry_def)
  have e1: "entry s (log_call CheckLogin ?s0)"
    by (simp add: entry_def log_call_def is_process_def)
  have e2: "entry s ((log_call CheckLogin ?s0)\<lparr>is_logged_in := b\<rparr>)" for b
    using e1 by (simp add: entry_def)
  have e3: "entry s ((log_call CheckLogin ?s0)\<lparr>is_logged_in := b, reconnect_attempts := 0\<rparr>)" for b
    using e1 by (simp add: entry_def)
  have g: "entry s t \<Longrightarrow> entry s (log_call GetLatest t)" for t
    by (auto simp: entry_def log_call_def is_process_def)
  obtain t r where lc: "login_check env ?s0 = (t, r)" by (cases "login_check env ?s0")
  have et: "entry s t"
    using lc e0 e1 e2 e3 by (auto simp: login_check_def Let_def split: if_splits sum.splits)
  show thesis
  proof (cases r)
    case (Some e)
    then have "listener_try cfg env s = (t, r)" by (simp add: listener_try_def lc)
    moreover have "\<not> is_logged_in s \<and> check_login env = Inl (the r)"
      using lc Some by (auto simp: login_check_def Let_def split: if_splits sum.splits)
    ultimately show thesis using et Some stopped_early[of t r] by simp
  next
    case None
    then have lt: "listener_try cfg env s = poll_messages cfg env t"
      by (simp add: listener_try_def lc)
    show thesis
    proof (cases "is_logged_in t")
      case False
      then show thesis using lt et stopped_early[of t None] by (simp add: poll_messages_def)
    next
      case True
      show thesis
      proof (cases "fetch env")
        case (Inl e)
        then have "listener_try cfg env s = (log_call GetLatest t, Some e)"
          using lt True by (simp add: poll_messages_def)
        then show thesis using g[OF et] stopped_early[of "log_call GetLatest t" "Some e"] Inl
          by simp
      next
        case (Inr ms)
        then have "listener_try cfg env s
            = and_then (for_messages cfg env (rev ms) (log_call GetLatest t)) resync"
          using lt True by (simp add: poll_messages_def)
        then show thesis using g[OF et] Inr fetched by blast
      qed
    qed
  qed
qed

lemma entry_skipped: "entry s t \<Longrightarrow> skipped t m = skipped s m"
  by (simp add: entry_def skipped_def)

lemma calls_since_entry:
  assumes "entry s t" and "calls t' = calls t @ cs"
  shows "(\<exists>c \<in> set (calls_since s t'). is_process c) = (\<exists>c \<in> set cs. is_process c)"
    and "Process m \<in> set cs \<Longrightarrow> Process m \<in> set (calls_since s t')"
proof -
  obtain pre where p: "calls t = calls s @ pre" "\<forall>c \<in> set pre. \<not> is_process c"
    using assms(1) by (auto simp: entry_def)
  have "calls_since s t' = pre @ cs"
    by (simp add: calls_since_def p assms(2))
  then show "(\<exists>c \<in> set (calls_since s t'). is_process c) = (\<exists>c \<in> set cs. is_process c)"
    and "Process m \<in> set cs \<Longrightarrow> Process m \<in> set (calls_since s t')"
    using p(2) by auto
qed

lemma resync_keeps:
  "calls (fst (resync t)) = calls t" "had_messages (fst (resync t)) = had_messages t"
  "snd (resync t) = None" "sent_buffer (fst (resync t)) = sent_buffer t"
  "processed_order (fst (resync t)) = processed_order t"
  by (simp_all add: resync_def)

text \<open>A dispatch made during the \<open>try\<close> block sets \<open>had_messages\<close>.\<close>

lemma listener_try_process_had:
  assumes "listener_try cfg env s = (s', r)"
    and "\<exists>c \<in> set (calls_since s s'). is_process c"
  shows "had_messages s'"
proof (cases rule: listener_try_cases[of s cfg env])
  case (stopped_early t r')
  then have "s' = t" using assms(1) by simp
  then have "\<not> (\<exists>c \<in> set (calls_since s s'). is_process c)"
    using calls_since_entry(1)[OF stopped_early(1), of t "[]"] by simp
  with assms(2) show ?thesis by simp
next
  case (fetched t ms)
  let ?t2 = "fst (for_messages cfg env (rev ms) t)"
  obtain cs where cs: "calls ?t2 = calls t @ cs" using for_messages_extends by blast
  have s': "s' = (case snd (for_messages cfg env (rev ms) t) of None \<Rightarrow> fst (resync ?t2) | Some e \<Rightarrow> ?t2)"
    using assms(1) fetched(3) by (auto simp: and_then_alt split: option.splits)
  then have c': "calls s' = calls t @ cs" "had_messages s' = had_messages ?t2"
    by (simp_all add: cs resync_keeps split: option.splits)
  have "\<exists>c \<in> set cs. is_process c"
    using assms(2) calls_since_entry(1)[OF fetched(1) c'(1)] by simp
  then have "\<exists>c \<in> set (calls_since t ?t2). is_process c"
    by (simp add: calls_since_def cs)
  then show ?thesis
    using for_messages_process_had c'(2) by simp
qed

text \<open>A \<open>try\<close> block that ends normally with \<open>had_messages\<close> set has dispatched one of the
  fetched messages, one that was not to be skipped.\<close>

lemma listener_try_had:
  assumes "listener_try cfg env s = (s', None)" and "had_messages s'"
  shows "\<exists>ms m. fetch env = Inr ms \<and> m \<in> set ms \<and> \<not> skipped s m
            \<and> Process m \<in> set (calls_since s s')"
proof (cases rule: listener_try_cases[of s cfg env])
  case (stopped_early t r')
  then have "s' = t" using assms(1) by simp
  with stopped_early(1) assms(2) show ?thesis by (simp add: entry_def)
next
  case (fetched t ms)
  let ?t2 = "fst (for_messages cfg env (rev ms) t)"
  have n: "snd (for_messages cfg env (rev ms) t) = None"
    using assms(1) fetched(3)
    by (cases "snd (for_messages cfg env (rev ms) t)") (simp_all add: and_then_alt)
  then have s': "s' = fst (resync ?t2)"
    using assms(1) fetched(3) by (simp add: and_then_alt)
  have h: "had_messages ?t2" using assms(2) s' by (simp add: resync_keeps)
  have nh: "\<not> had_messages t" using fetched(1) by (simp add: entry_def)
  obtain m where m: "m \<in> set (rev ms)" "\<not> skipped t m" "Process m \<in> set (calls_since t ?t2)"
    using for_messages_had[OF n h nh] by blast
  obtain cs where cs: "calls ?t2 = calls t @ cs" using for_messages_extends by blast
  have "calls s' = calls t @ cs" by (simp add: s' resync_keeps cs)
  moreover have "Process m \<in> set cs" using m(3) by (simp add: calls_since_def cs)
  ultimately have "Process m \<in> set (calls_since s s')"
    using calls_since_entry(2)[OF fetched(1)] by blast
  with m fetched(2) entry_skipped[OF fetched(1)] show ?thesis by auto
qed

text \<open>A cycle whose fetched messages are all skipped ends normally without a dispatch.\<close>

lemma listener_try_all_skipped:
  assumes "fetch env = Inr ms"
    and "all_skipped (processed_set s) (sent_buffer s) (rev ms)"
    and "listener_try cfg env s = (s', r)"
  shows "(r = None \<or> (\<exists>e. check_login env = Inl e \<and> \<not> is_logged_in s))
     \<and> \<not> had_messages s'
     \<and> \<not> (\<exists>c \<in> set (calls_since s s'). is_process c)
     \<and> sent_buffer s' = sent_buffer s"
proof (cases rule: listener_try_cases[of s cfg env])
  case (stopped_early t r')
  then have st: "s' = t" "r' = r" using assms(3) by simp_all
  have "r = None \<or> (\<exists>e. check_login env = Inl e \<and> \<not> is_logged_in s)"
    using stopped_early(3) st assms(1) by auto
  moreover have "\<not> (\<exists>c \<in> set (calls_since s s'). is_process c)"
    using calls_since_entry(1)[OF stopped_early(1), of t "[]"] st by simp
  ultimately show ?thesis using stopped_early(1) st by (simp add: entry_def)
next
  case (fetched t ms')
  then have ms': "ms' = ms" using assms(1) by simp
  let ?t2 = "fst (for_messages cfg env (rev ms) t)"
  have b: "processed_set t = processed_set s" "sent_buffer t = sent_buffer s"
    using fetched(1) by (simp_all add: entry_def)
  have a: "all_skipped (processed_set t) (sent_buffer t) (rev ms)"
    using assms(2) b by simp
  note f = for_messages_all_skipped[OF a, of cfg env]
  have "(s', r) = resync ?t2"
    using assms(3) fetched(3) f ms' by (simp add: and_then_alt)
  then have s': "s' = fst (resync ?t2)" "r = None"
    using resync_keeps(3)[of ?t2] by (metis fst_conv, metis snd_conv)
  have "calls s' = calls t @ []" using f by (simp add: s' resync_keeps)
  then have "\<not> (\<exists>c \<in> set (calls_since s s'). is_process c)"
    using calls_since_entry(1)[OF fetched(1), of s' "[]"] by simp
  then show ?thesis
    using s' f b fetched(1) by (simp add: resync_keeps entry_def)
qed

subsection \<open>Double precision\<close>

lemma exp_up_bounds: "1 \<le> x \<Longrightarrow> 2 ^ exp_up x \<le> x \<and> x < 2 * 2 ^ exp_up x"
proof (induction x rule: exp_up.induct)
  case (1 x)
  show ?case
  proof (cases "x < 2")
    case True
    then show ?thesis using 1(2) by (simp add: exp_up.simps[of x])
  next
    case False
    then have "1 \<le> x / 2" by simp
    from 1(1)[OF False this] show ?thesis
      using False by (simp add: exp_up.simps[of x])
  qed
qed

lemma pow2_powr: "pow2 e = 2 powr (of_int e)"
proof (cases "0 \<le> e")
  case True
  then have "real_of_int e = real (nat e)" by simp
  then show ?thesis using True by (simp add: pow2_def powr_realpow del: of_nat_nat)
next
  case False
  then have "real_of_int e = - real (nat (- e))" by simp
  then show ?thesis using False
    by (simp add: pow2_def powr_minus_divide powr_realpow del: of_nat_nat)
qed

lemma pow2_pos: "0 < pow2 e"
  by (simp add: pow2_powr)

lemma pow2_add: "pow2 (a + b) = pow2 a * pow2 b"
  by (simp add: pow2_powr powr_add)

lemma pow2_less_iff: "pow2 a < pow2 b \<longleftrightarrow> a < b"
  by (simp add: pow2_powr)

lemma pow2_le_iff: "pow2 a \<le> pow2 b \<longleftrightarrow> a \<le> b"
  by (simp add: pow2_powr)

lemma pow2_nat: "pow2 (int k) = 2 ^ k"
  by (simp add: pow2_def)

lemma pow2_neg_nat: "pow2 (- int k) = 1 / 2 ^ k"
  by (simp add: pow2_powr powr_minus_divide powr_realpow)

lemma pow2_succ: "pow2 (e + 1) = 2 * pow2 e"
proof -
  have "pow2 1 = 2" by (simp add: pow2_def)
  then show ?thesis using pow2_add[of e 1] by simp
qed

lemma binary_exponent_bounds:
  assumes "0 < x"
  shows "pow2 (binary_exponent x) \<le> x \<and> x < pow2 (binary_exponent x + 1)"
proof (cases "1 \<le> x")
  case True
  have "pow2 (int (exp_up x) + 1) = 2 * 2 ^ exp_up x"
    by (simp only: pow2_succ pow2_nat)
  then show ?thesis
    using exp_up_bounds[OF True] True by (simp add: binary_exponent_def pow2_nat)
next
  case False
  define k where "k = exp_up (1 / x)"
  have y: "1 \<le> 1 / x" using False assms by simp
  note b = exp_up_bounds[OF y, folded k_def]
  have p: "(0::real) < 2 ^ k" by simp
  show ?thesis
  proof (cases "1 / x = 2 ^ k")
    case True
    then have x: "x = 1 / 2 ^ k" using assms by (simp add: field_simps)
    have e: "binary_exponent x = - int k"
      using False True by (simp add: binary_exponent_def k_def Let_def)
    have "pow2 (- int k + 1) = 2 * pow2 (- int k)"
      by (rule pow2_succ)
    moreover have "(1::real) / 2 ^ k < 2 / 2 ^ k" by (simp add: divide_strict_right_mono)
    ultimately show ?thesis unfolding e using x by (simp add: pow2_neg_nat)
  next
    case ne: False
    have e: "binary_exponent x = - int (Suc k)"
      using False ne by (simp add: binary_exponent_def k_def Let_def)
    have 1: "pow2 (- int (Suc k)) \<le> x"
    proof -
      have "1 / x < 2 ^ Suc k" using b by simp
      then have "1 < x * 2 ^ Suc k" using assms by (simp add: field_simps)
      then have "1 / 2 ^ Suc k < x" by (simp add: field_simps)
      then show ?thesis by (simp only: pow2_neg_nat)
    qed
    have 2: "x < pow2 (- int (Suc k) + 1)"
    proof -
      have "2 ^ k < 1 / x" using b ne by simp
      then have "x * 2 ^ k < 1" using assms by (simp add: field_simps)
      then have "x < 1 / 2 ^ k" by (simp add: field_simps)
      moreover have "- int (Suc k) + 1 = - int k" by simp
      ultimately show ?thesis by (simp only: pow2_neg_nat)
    qed
    show ?thesis unfolding e using 1 2 by simp
  qed
qed

lemma binary_exponent_unique:
  assumes "0 < x" and "pow2 e \<le> x" and "x < pow2 (e + 1)"
  shows "binary_exponent x = e"
proof -
  note b = binary_exponent_bounds[OF assms(1)]
  have "pow2 e < pow2 (binary_exponent x + 1)" using assms(2) b by linarith
  moreover have "pow2 (binary_exponent x) < pow2 (e + 1)" using assms(3) b by linarith
  ultimately show ?thesis unfolding pow2_less_iff by linarith
qed

lemma round_even_unique:
  assumes "\<bar>y - of_int n\<bar> < 1/2"
  shows "round_even y = n"
proof -
  from assms have a: "y - of_int n < 1/2" "of_int n - y < 1/2"
    by linarith+
  show ?thesis
  proof (cases "of_int n \<le> y")
    case True
    have "\<lfloor>y\<rfloor> = n"
    proof (rule floor_unique)
      show "of_int n \<le> y" by (rule True)
      show "y < of_int n + 1" using a(1) by linarith
    qed
    then show ?thesis using a(1) by (simp add: round_even_def Let_def)
  next
    case False
    have f: "\<lfloor>y\<rfloor> = n - 1"
    proof (rule floor_unique)
      show "of_int (n - 1) \<le> y" using a(2) by simp
      show "y < of_int (n - 1) + 1" using False by simp
    qed
    have "1/2 < y - of_int (n - 1)" using a(2) by simp
    then show ?thesis unfolding round_even_def Let_def f by simp
  qed
qed

lemma round_even_err: "\<bar>of_int (round_even y) - y\<bar> \<le> 1/2"
proof -
  have "of_int \<lfloor>y\<rfloor> \<le> y" "y < of_int \<lfloor>y\<rfloor> + 1" by linarith+
  then show ?thesis
    unfolding round_even_def Let_def by (auto simp: abs_le_iff) 
qed

lemma to_double_pos:
  assumes "0 < x" and "pow2 e \<le> x" and "x < pow2 (e + 1)" and "- 1022 \<le> e"
  shows "to_double x = of_int (round_even (x / pow2 (e - 52))) * pow2 (e - 52)"
proof -
  have "binary_exponent \<bar>x\<bar> = e" using binary_exponent_unique[OF assms(1-3)] assms(1) by simp
  moreover have "max (e - 52) (- 1074) = e - 52" using assms(4) by simp
  ultimately show ?thesis using assms(1) by (simp add: to_double_def Let_def)
qed

lemma to_double_eqI:
  assumes "0 < x" and "pow2 e \<le> x" and "x < pow2 (e + 1)" and "- 1022 \<le> e"
    and "\<bar>x / pow2 (e - 52) - of_int n\<bar> < 1/2"
  shows "to_double x = of_int n * pow2 (e - 52)"
  unfolding to_double_pos[OF assms(1-4)] round_even_unique[OF assms(5)] ..

lemma to_double_rel_err:
  assumes "pow2 (- 1022) \<le> x"
  shows "\<bar>to_double x - x\<bar> \<le> x / 2 ^ 53"
proof -
  have x: "0 < x" using assms pow2_pos[of "- 1022"] by linarith
  define e where "e = binary_exponent x"
  note b = binary_exponent_bounds[OF x, folded e_def]
  have "pow2 (- 1022) < pow2 (e + 1)" using assms b by linarith
  then have e: "- 1022 \<le> e" unfolding pow2_less_iff by simp
  define u where "u = pow2 (e - 52)"
  have u: "0 < u" by (simp add: u_def pow2_pos)
  have t: "to_double x = of_int (round_even (x / u)) * u"
    unfolding u_def using to_double_pos[OF x _ _ e] b by simp
  have "\<bar>of_int (round_even (x / u)) * u - x\<bar> = \<bar>of_int (round_even (x / u)) - x / u\<bar> * u"
  proof -
    have "of_int (round_even (x / u)) * u - x = (of_int (round_even (x / u)) - x / u) * u"
      using u by (simp add: field_simps)
    then show ?thesis using u by (simp add: abs_mult)
  qed
  also have "\<dots> \<le> (1/2) * u"
    using round_even_err[of "x / u"] u by (intro mult_right_mono) simp_all
  also have "\<dots> = pow2 e / 2 ^ 53"
  proof -
    have "pow2 e = pow2 (e - 52) * pow2 52" by (simp add: pow2_add[symmetric])
    moreover have "pow2 52 = 2 ^ 52" by (simp add: pow2_def)
    ultimately show ?thesis by (simp add: u_def)
  qed
  also have "\<dots> \<le> x / 2 ^ 53" using b by (simp add: divide_right_mono)
  finally show ?thesis unfolding t .
qed


lemma pow2_vals:
  "pow2 0 = 1" "pow2 1 = 2" "pow2 2 = 4" "pow2 (- 1) = 1 / 2"
  "pow2 (- 52) = 1 / 4503599627370496" "pow2 (- 51) = 1 / 2251799813685248"
  by (simp_all add: pow2_def)

lemma double_1_2:
  "to_double 1.2 = 5404319552844595 / 4503599627370496"
  "to_double (6 / 5) = 5404319552844595 / 4503599627370496"
  using to_double_eqI[of "12/10" 0 5404319552844595] by (simp_all add: pow2_vals)

lemma fmul_table:
  "fmul 1 (5404319552844595 / 4503599627370496) = 5404319552844595 / 4503599627370496"
  "fmul (5404319552844595 / 4503599627370496) (5404319552844595 / 4503599627370496)
     = 3242591731706757 / 2251799813685248"
  "fmul (3242591731706757 / 2251799813685248) (5404319552844595 / 4503599627370496)
     = 7782220156096217 / 4503599627370496"
  "fmul (7782220156096217 / 4503599627370496) (5404319552844595 / 4503599627370496)
     = 2334666046828865 / 1125899906842624"
  "fmul (2334666046828865 / 1125899906842624) (5404319552844595 / 4503599627370496)
     = 1400799628097319 / 562949953421312"
  "fmul (1400799628097319 / 562949953421312) (5404319552844595 / 4503599627370496)
     = 6723838214867131 / 2251799813685248"
proof -
  let ?c = "5404319552844595 / 4503599627370496 :: real"
  show "fmul 1 ?c = 5404319552844595 / 4503599627370496"
    unfolding fmul_def
    using to_double_eqI[of "1 * ?c" 0 5404319552844595] by (simp add: pow2_vals)
  show "fmul ?c ?c = 3242591731706757 / 2251799813685248"
    unfolding fmul_def
    using to_double_eqI[of "?c * ?c" 0 6485183463413514] by (simp add: pow2_vals)
  show "fmul (3242591731706757 / 2251799813685248) ?c = 7782220156096217 / 4503599627370496"
    unfolding fmul_def
    using to_double_eqI[of "3242591731706757 / 2251799813685248 * ?c" 0 7782220156096217]
    by (simp add: pow2_vals)
  show "fmul (7782220156096217 / 4503599627370496) ?c = 2334666046828865 / 1125899906842624"
    unfolding fmul_def
    using to_double_eqI[of "7782220156096217 / 4503599627370496 * ?c" 1 4669332093657730]
    by (simp add: pow2_vals)
  show "fmul (2334666046828865 / 1125899906842624) ?c = 1400799628097319 / 562949953421312"
    unfolding fmul_def
    using to_double_eqI[of "2334666046828865 / 1125899906842624 * ?c" 1 5603198512389276]
    by (simp add: pow2_vals)
  show "fmul (1400799628097319 / 562949953421312) ?c = 6723838214867131 / 2251799813685248"
    unfolding fmul_def
    using to_double_eqI[of "1400799628097319 / 562949953421312 * ?c" 1 6723838214867131]
    by (simp add: pow2_vals)
qed

lemma to_double_lower:
  assumes "1 / 2 \<le> x"
  shows "x * (1 - 1 / 2 ^ 53) \<le> to_double x"
proof -
  have "pow2 (- 1022) \<le> pow2 (- 1)" unfolding pow2_le_iff by simp
  then have "pow2 (- 1022) \<le> x" using assms by (simp add: pow2_vals)
  from to_double_rel_err[OF this] have "x - x / 2 ^ 53 \<le> to_double x" by linarith
  then show ?thesis by (simp add: algebra_simps)
qed

lemma fmul_capped:
  assumes "14 / 5 \<le> p"
  shows "min (fmul p (5404319552844595 / 4503599627370496)) 3 = 3"
proof -
  let ?c = "5404319552844595 / 4503599627370496 :: real"
  have "(14 / 5) * ?c \<le> p * ?c" using assms by (intro mult_right_mono) simp_all
  then have x: "33 / 10 \<le> p * ?c" by simp
  then have "1 / 2 \<le> p * ?c" by simp
  from to_double_lower[OF this] have 1: "p * ?c * (1 - 1 / 2 ^ 53) \<le> fmul p ?c"
    by (simp only: fmul_def)
  have 2: "(33 / 10) * (1 - 1 / 2 ^ 53) \<le> p * ?c * (1 - 1 / 2 ^ 53)"
    using x by (intro mult_right_mono) simp_all
  have 3: "(3::real) \<le> (33 / 10) * (1 - 1 / 2 ^ 53)" by simp
  have "3 \<le> fmul p ?c" using 1 2 3 by (rule_tac order_trans[OF 3 order_trans[OF 2 1]])
  then show ?thesis by simp
qed

lemma fmul_above_half:
  assumes "1 / 2 \<le> p"
  shows "1 / 2 < min (fmul p (5404319552844595 / 4503599627370496)) 3"
proof -
  let ?c = "5404319552844595 / 4503599627370496 :: real"
  have "(1 / 2) * ?c \<le> p * ?c" using assms by (intro mult_right_mono) simp_all
  then have x: "59 / 100 \<le> p * ?c" by simp
  then have "1 / 2 \<le> p * ?c" by simp
  from to_double_lower[OF this] have 1: "p * ?c * (1 - 1 / 2 ^ 53) \<le> fmul p ?c"
    by (simp only: fmul_def)
  have 2: "(59 / 100) * (1 - 1 / 2 ^ 53) \<le> p * ?c * (1 - 1 / 2 ^ 53)"
    using x by (intro mult_right_mono) simp_all
  have 3: "(1 / 2 :: real) < (59 / 100) * (1 - 1 / 2 ^ 53)" by simp
  have "1 / 2 < fmul p ?c" by (rule less_le_trans[OF 3 order_trans[OF 2 1]])
  then show ?thesis by simp
qed

lemma backoff_table_step:
  "min (fmul (backoff_table k) (to_double 1.2)) 3 = backoff_table (Suc k)"
proof -
  consider "k = 0" | "k = 1" | "k = 2" | "k = 3" | "k = 4" | "k = 5" | "k = 6" | "7 \<le> k"
    by linarith
  then show ?thesis
  proof cases
    case 7
    have "min (fmul (6723838214867131 / 2251799813685248)
                    (5404319552844595 / 4503599627370496)) 3 = 3"
      by (rule fmul_capped) simp
    then show ?thesis using 7 by (simp add: backoff_table_def double_1_2)
  next
    case 8
    have "min (fmul 3 (5404319552844595 / 4503599627370496)) 3 = 3"
      by (rule fmul_capped) simp
    then show ?thesis using 8 by (simp add: backoff_table_def double_1_2)
  qed (simp_all add: backoff_table_def double_1_2 fmul_table)
qed

lemma backoff_table_close:
  "\<bar>backoff_table k - min (1 * (12 / 10) ^ k) 3\<bar> \<le> 1 / 2 ^ 51"
proof -
  consider "k = 0" | "k = 1" | "k = 2" | "k = 3" | "k = 4" | "k = 5" | "k = 6" | "7 \<le> k"
    by linarith
  then show ?thesis
  proof cases
    case 8
    have "(12 / 10 :: real) ^ 7 \<le> (12 / 10) ^ k"
      using 8 by (intro power_increasing) simp_all
    moreover have "(3::real) \<le> (12 / 10) ^ 7" by (simp add: power_numeral_reduce)
    ultimately have "(3::real) \<le> (12 / 10) ^ k" by linarith
    then show ?thesis using 8 by (simp add: backoff_table_def)
  qed (simp_all add: backoff_table_def power_numeral_reduce)
qed

lemma backoff_table_differs:
  "backoff_table 3 \<noteq> min (1 * (12 / 10) ^ 3) 3"
  "backoff_table 6 \<noteq> min (1 * (12 / 10) ^ 6) 3"
  by (simp_all add: backoff_table_def power_numeral_reduce)

subsection \<open>The poll interval\<close>

lemmas listener_defs =
  listener_cycle_def listener_try_def login_check_def poll_messages_def handle_msg_def
  download_step_def reply_step_def count_message_def resync_def adjust_interval_def
  add_error_def log_call_def truthy_def unique_key_of_def strip_def py_isspace_def
  deque_append_def Let_def

lemma listener_cycle_normal:
  assumes "listener_alive s" and "listener_try cfg env s = (s', None)"
  shows "listener_cycle cfg s env = adjust_interval s'"
    and "poll_interval s' = poll_interval s"
  using assms untouched_listener_try[of s cfg env]
  by (simp_all add: listener_cycle_def untouched_def)

lemma idle_step_above_half:
  assumes "1/2 \<le> p"
  shows "1/2 < min (fmul p (to_double 1.2)) 3"
  using fmul_above_half[OF assms] by (simp only: double_1_2)

lemma interval_bounds_cycle:
  assumes "1/2 \<le> poll_interval s \<and> poll_interval s \<le> 3"
  shows "1/2 \<le> poll_interval (listener_cycle cfg s env)
         \<and> poll_interval (listener_cycle cfg s env) \<le> 3"
proof (cases "listener_alive s")
  case False
  then show ?thesis using assms by (simp add: listener_cycle_def)
next
  case True
  obtain s' r where t: "listener_try cfg env s = (s', r)" by (cases "listener_try cfg env s")
  have u: "poll_interval s' = poll_interval s"
    using untouched_listener_try[of s cfg env] t by (simp add: untouched_def)
  show ?thesis
  proof (cases r)
    case None
    define q where "q = min (fmul (poll_interval s') (to_double 1.2)) 3"
    have "1/2 \<le> poll_interval s'" using assms u by simp
    from idle_step_above_half[OF this] have q: "1/2 < q" "q \<le> 3"
      by (simp_all add: q_def)
    have "poll_interval (listener_cycle cfg s env) = (if had_messages s' then 1/2 else q)"
      using True t None by (simp add: listener_cycle_def adjust_interval_def q_def)
    then show ?thesis using q by simp
  next
    case (Some e)
    then show ?thesis
      using True t u assms by (cases e) (simp_all add: listener_cycle_def add_error_def Let_def)
  qed
qed

lemma interval_bounds_run:
  assumes "1/2 \<le> poll_interval s \<and> poll_interval s \<le> 3"
  shows "1/2 \<le> poll_interval (run_listener cfg s envs)
         \<and> poll_interval (run_listener cfg s envs) \<le> 3"
  using assms
proof (induction envs arbitrary: s)
  case Nil
  then show ?case by (simp add: run_listener_def)
next
  case (Cons env envs)
  from Cons.IH[OF interval_bounds_cycle[OF Cons.prems, of cfg env]]
  show ?case by (simp add: run_listener_def)
qed

text \<open>
  C9 (a cycle of skipped messages is idle). When the listener fetches messages and the
  loop passes over each of them (an empty key, a key seen before or earlier in the same
  batch, or the text of a buffered reply), the cycle dispatches nothing and multiplies
  the interval by 1.2 in double arithmetic, up to 3.0; in particular when each message
  is to be skipped as the cycle starts. The interval stays between 0.5 and 3.0, and a
  multiplication never yields 0.5: when a cycle that was not cancelled leaves the
  interval at 0.5, the loop did not pass over every fetched message, and a message that
  was not to be skipped was dispatched in that cycle.
\<close>

theorem skipped_cycle_is_idle:
  assumes "listener_alive s"
  shows "((is_logged_in s \<or> check_login env = Inr True) \<and> fetch env = Inr ms
           \<and> all_skipped (processed_set s) (sent_buffer s) (rev ms)
          \<longrightarrow> poll_interval (listener_cycle cfg s env)
                = min (fmul (poll_interval s) (to_double 1.2)) 3.0
              \<and> \<not> (\<exists>c \<in> set (calls_since s (listener_cycle cfg s env)). is_process c))
     \<and> ((\<forall>m \<in> set ms. skipped s m)
          \<longrightarrow> all_skipped (processed_set s) (sent_buffer s) (rev ms))
     \<and> (1/2 \<le> poll_interval (run_listener cfg (listener_start s0) envs)
          \<and> poll_interval (run_listener cfg (listener_start s0) envs) \<le> 3)
     \<and> (1/2 \<le> poll_interval s
          \<longrightarrow> 1/2 < min (fmul (poll_interval s) (to_double 1.2)) 3.0)
     \<and> (1/2 \<le> poll_interval s \<and> listener_alive (listener_cycle cfg s env)
          \<and> poll_interval (listener_cycle cfg s env) = 1/2
          \<longrightarrow> (\<exists>ms m. fetch env = Inr ms \<and> m \<in> set ms \<and> \<not> skipped s m
                 \<and> \<not> all_skipped (processed_set s) (sent_buffer s) (rev ms)
                 \<and> Process m \<in> set (calls_since s (listener_cycle cfg s env))))"
proof (intro conjI impI)
  assume a: "(is_logged_in s \<or> check_login env = Inr True) \<and> fetch env = Inr ms
           \<and> all_skipped (processed_set s) (sent_buffer s) (rev ms)"
  obtain s' r where t: "listener_try cfg env s = (s', r)" by (cases "listener_try cfg env s")
  from a have f: "fetch env = Inr ms" "all_skipped (processed_set s) (sent_buffer s) (rev ms)"
    by simp_all
  note k = listener_try_all_skipped[OF f t]
  from k a have r: "r = None" by auto
  note c = listener_cycle_normal[OF assms t[unfolded r]]
  have cs: "calls (adjust_interval s') = calls s'" by (simp add: adjust_interval_def)
  show "poll_interval (listener_cycle cfg s env)
          = min (fmul (poll_interval s) (to_double 1.2)) 3.0"
    using k c by (simp add: adjust_interval_def)
  show "\<not> (\<exists>c \<in> set (calls_since s (listener_cycle cfg s env)). is_process c)"
    using k c(1) cs by (simp add: calls_since_def)
next
  assume "\<forall>m \<in> set ms. skipped s m"
  then have "\<forall>m \<in> set (rev ms). skipped s m" by simp
  then show "all_skipped (processed_set s) (sent_buffer s) (rev ms)"
    by (rule skipped_all_skipped) simp
next
  have "1/2 \<le> poll_interval (listener_start s0) \<and> poll_interval (listener_start s0) \<le> 3"
    by (simp add: listener_start_def)
  note b = interval_bounds_run[OF this, of cfg envs]
  show "1/2 \<le> poll_interval (run_listener cfg (listener_start s0) envs)" using b by simp
  show "poll_interval (run_listener cfg (listener_start s0) envs) \<le> 3" using b by simp
next
  assume "1/2 \<le> poll_interval s"
  then show "1/2 < min (fmul (poll_interval s) (to_double 1.2)) 3.0"
    using idle_step_above_half by simp
next
  assume a: "1/2 \<le> poll_interval s \<and> listener_alive (listener_cycle cfg s env)
          \<and> poll_interval (listener_cycle cfg s env) = 1/2"
  obtain s' r where t: "listener_try cfg env s = (s', r)" by (cases "listener_try cfg env s")
  have u: "poll_interval s' = poll_interval s"
    using untouched_listener_try[of s cfg env] t by (simp add: untouched_def)
  define q where "q = min (fmul (poll_interval s') (to_double 1.2)) 3"
  have "1/2 \<le> poll_interval s'" using a u by simp
  from idle_step_above_half[OF this] have h: "1/2 < q"
    by (simp add: q_def)
  have r: "r = None \<and> had_messages s'"
  proof (cases r)
    case None
    show ?thesis
    proof (cases "had_messages s'")
      case True
      with None show ?thesis by simp
    next
      case False
      then have "poll_interval (listener_cycle cfg s env) = q"
        using assms t None by (simp add: listener_cycle_def adjust_interval_def q_def)
      with h a show ?thesis by simp
    qed
  next
    case (Some e)
    then show ?thesis
      using a u assms t by (cases e) (auto simp: listener_cycle_def)
  qed
  then have t': "listener_try cfg env s = (s', None)" using t by simp
  have "calls (listener_cycle cfg s env) = calls s'"
    using listener_cycle_normal(1)[OF assms t'] by (simp add: adjust_interval_def)
  then have cs: "calls_since s (listener_cycle cfg s env) = calls_since s s'"
    by (simp add: calls_since_def)
  obtain ms m where m: "fetch env = Inr ms" "m \<in> set ms" "\<not> skipped s m"
    "Process m \<in> set (calls_since s s')"
    using listener_try_had[OF t'] r by blast
  have "\<not> all_skipped (processed_set s) (sent_buffer s) (rev ms)"
  proof
    assume "all_skipped (processed_set s) (sent_buffer s) (rev ms)"
    from listener_try_all_skipped[OF m(1) this t'] m(4) show False
      by (auto simp: is_process_def)
  qed
  with m cs show "\<exists>ms m. fetch env = Inr ms \<and> m \<in> set ms \<and> \<not> skipped s m
                 \<and> \<not> all_skipped (processed_set s) (sent_buffer s) (rev ms)
                 \<and> Process m \<in> set (calls_since s (listener_cycle cfg s env))"
    by auto
qed

lemma seen_state_simps:
  "listener_alive seen_state" "is_logged_in seen_state" "poll_interval seen_state = 1"
  "processed_set seen_state = {[49]}" "sent_buffer seen_state = [[112, 111, 110, 103]]"
  by (simp_all add: seen_state_def state0_def)

lemma skipped_batch_skipped: "\<forall>m \<in> set skipped_batch. skipped seen_state m"
  by (simp add: skipped_batch_def skipped_def seen_state_simps text_msg_def unique_key_of_def
        strip_def py_isspace_def)

lemma duplicate_batch_facts:
  "all_skipped (processed_set seen_state) (sent_buffer seen_state) (rev duplicate_batch)"
  "\<not> list_all (skipped seen_state) duplicate_batch"
  "all_skipped (processed_set seen_state) (sent_buffer seen_state) (rev wide_space_batch)"
  by (simp_all add: duplicate_batch_def wide_space_batch_def skipped_def seen_state_simps
        text_msg_def unique_key_of_def strip_def py_isspace_def)

lemma fmul_one: "min (fmul 1 (to_double 1.2)) 3 = 5404319552844595 / 4503599627370496"
  by (simp add: double_1_2 fmul_table)

lemma ping_cycle:
  "listener_cycle config0 state0 ping_env =
     state0\<lparr>processed_set := {(ascii ''2'')}, processed_order := [(ascii ''2'')], sent_buffer := [(ascii ''pong'')],
            had_messages := True, total_messages := 1, poll_interval := 1/2,
            calls := [GetLatest, Process (text_msg (ascii ''2'') (ascii ''/ping'')), SendText (ascii ''pong'')]\<rparr>"
  by (simp add: listener_defs ping_env_def pong_env_def listener_env_ok_def state0_def
        config0_def text_msg_def)

theorem skipped_cycle_is_idle_witness:
  "listener_alive seen_state \<and> is_logged_in seen_state \<and> poll_interval seen_state = 1
   \<and> list_all (skipped seen_state) skipped_batch
   \<and> all_skipped (processed_set seen_state) (sent_buffer seen_state) (rev skipped_batch)
   \<and> poll_interval (listener_cycle config0 seen_state (listener_env_ok\<lparr>fetch := Inr skipped_batch\<rparr>))
       = 5404319552844595 / 4503599627370496
   \<and> \<not> list_all (skipped seen_state) duplicate_batch
   \<and> all_skipped (processed_set seen_state) (sent_buffer seen_state) (rev duplicate_batch)
   \<and> poll_interval (listener_cycle config0 seen_state (listener_env_ok\<lparr>fetch := Inr duplicate_batch\<rparr>))
       = 5404319552844595 / 4503599627370496
   \<and> list_all (\<lambda>c. \<not> is_process c)
       (calls_since seen_state
          (listener_cycle config0 seen_state (listener_env_ok\<lparr>fetch := Inr duplicate_batch\<rparr>)))
   \<and> all_skipped (processed_set seen_state) (sent_buffer seen_state) (rev wide_space_batch)
   \<and> poll_interval (listener_cycle config0 seen_state (listener_env_ok\<lparr>fetch := Inr wide_space_batch\<rparr>))
       = 5404319552844595 / 4503599627370496
   \<and> listener_alive state0 \<and> 1/2 \<le> poll_interval state0
   \<and> listener_alive (listener_cycle config0 state0 ping_env)
   \<and> poll_interval (listener_cycle config0 state0 ping_env) = 1/2
   \<and> (\<exists>ms m. fetch ping_env = Inr ms \<and> m \<in> set ms \<and> \<not> skipped state0 m
         \<and> \<not> all_skipped (processed_set state0) (sent_buffer state0) (rev ms)
         \<and> Process m \<in> set (calls_since state0 (listener_cycle config0 state0 ping_env)))"
proof -
  have f: "fetch (listener_env_ok\<lparr>fetch := Inr b\<rparr>) = Inr b" for b
    by simp
  note T = skipped_cycle_is_idle[OF seen_state_simps(1), where cfg = config0]
  have a1: "all_skipped (processed_set seen_state) (sent_buffer seen_state) (rev skipped_batch)"
    using T[of _ skipped_batch] skipped_batch_skipped by blast
  have 1: "poll_interval (listener_cycle config0 seen_state (listener_env_ok\<lparr>fetch := Inr skipped_batch\<rparr>))
       = 5404319552844595 / 4503599627370496"
    using T[of "listener_env_ok\<lparr>fetch := Inr skipped_batch\<rparr>" skipped_batch]
      a1 f seen_state_simps(2,3) fmul_one by simp
  have 2: "poll_interval (listener_cycle config0 seen_state (listener_env_ok\<lparr>fetch := Inr duplicate_batch\<rparr>))
       = 5404319552844595 / 4503599627370496"
    "\<not> (\<exists>c \<in> set (calls_since seen_state
          (listener_cycle config0 seen_state (listener_env_ok\<lparr>fetch := Inr duplicate_batch\<rparr>))).
         is_process c)"
    using T[of "listener_env_ok\<lparr>fetch := Inr duplicate_batch\<rparr>" duplicate_batch]
      duplicate_batch_facts(1) f seen_state_simps(2,3) fmul_one by simp_all
  have 3: "poll_interval (listener_cycle config0 seen_state (listener_env_ok\<lparr>fetch := Inr wide_space_batch\<rparr>))
       = 5404319552844595 / 4503599627370496"
    using T[of "listener_env_ok\<lparr>fetch := Inr wide_space_batch\<rparr>" wide_space_batch]
      duplicate_batch_facts(3) f seen_state_simps(2,3) fmul_one by simp
  have s0: "listener_alive state0" "1/2 \<le> poll_interval state0"
    by (simp_all add: state0_def)
  have p: "poll_interval (listener_cycle config0 state0 ping_env) = 1/2"
    "listener_alive (listener_cycle config0 state0 ping_env)"
    unfolding ping_cycle by (simp_all add: state0_def)
  have 4: "\<exists>ms m. fetch ping_env = Inr ms \<and> m \<in> set ms \<and> \<not> skipped state0 m
         \<and> \<not> all_skipped (processed_set state0) (sent_buffer state0) (rev ms)
         \<and> Process m \<in> set (calls_since state0 (listener_cycle config0 state0 ping_env))"
    using skipped_cycle_is_idle[OF s0(1), of ping_env ms config0] s0(2) p by blast
  show ?thesis
    using 1 2 3 4 a1 s0 p seen_state_simps(1,2,3) skipped_batch_skipped duplicate_batch_facts
    by (simp add: list_all_iff)
qed

lemma idle_cycle_step:
  assumes "listener_alive s" and "idle_cycle cfg s env"
  shows "poll_interval (listener_cycle cfg s env) = min (fmul (poll_interval s) (to_double 1.2)) 3"
    and "listener_alive (listener_cycle cfg s env)"
proof -
  obtain s' r where t: "listener_try cfg env s = (s', r)" by (cases "listener_try cfg env s")
  with assms(2) have r: "r = None" and np: "\<forall>c \<in> set (calls_since s s'). \<not> is_process c"
    by (simp_all add: idle_cycle_def list_all_iff)
  have nh: "\<not> had_messages s'"
  proof
    assume "had_messages s'"
    then obtain m where "Process m \<in> set (calls_since s s')"
      using listener_try_had[OF t[unfolded r]] by blast
    with np show False by (auto simp: is_process_def)
  qed
  note c = listener_cycle_normal[OF assms(1) t[unfolded r]]
  have a: "listener_alive s'"
    using untouched_listener_try[of s cfg env] t assms(1) by (simp add: untouched_def)
  show "poll_interval (listener_cycle cfg s env) = min (fmul (poll_interval s) (to_double 1.2)) 3"
    using c nh by (simp add: adjust_interval_def)
  show "listener_alive (listener_cycle cfg s env)"
    using c(1) a by (simp add: adjust_interval_def)
qed

lemma idle_run_interval:
  assumes "listener_alive s" and "poll_interval s = backoff_table j" and "idle_run cfg s envs"
  shows "poll_interval (run_listener cfg s envs) = backoff_table (j + length envs)"
  using assms
proof (induction envs arbitrary: s j)
  case Nil
  then show ?case by (simp add: run_listener_def)
next
  case (Cons env envs)
  let ?s1 = "listener_cycle cfg s env"
  from Cons.prems have i: "idle_cycle cfg s env" "idle_run cfg ?s1 envs" by simp_all
  note st = idle_cycle_step[OF Cons.prems(1) i(1)]
  have "poll_interval ?s1 = backoff_table (Suc j)"
    unfolding st(1) Cons.prems(2) by (rule backoff_table_step)
  from Cons.IH[OF st(2) this i(2)] show ?case
    by (simp add: run_listener_def)
qed

text \<open>
  C2 (backoff law), as the code has it. The interval is a double and each idle cycle
  multiplies it by the double nearest to 1.2, rounds the product to a double and caps it
  at 3.0. From the start of the listener, after \<open>k\<close> cycles in a row that end without an
  exception and without a dispatch the interval is 1.0, 1.2, 1.44, 1.728, 2.0736,
  2.48832, 2.9859839999999997 for \<open>k\<close> from 0 to 6 and 3.0 from \<open>k = 7\<close> on. That is
  within \<open>2 ^ - 51\<close> of the real number \<open>min (1.0 * 1.2 ^ k) 3.0\<close>, and different from it
  for every \<open>k\<close> from 1 to 6. And a cycle that ends without an exception and in which a
  message was dispatched sets the interval to 0.5.
\<close>

theorem backoff_law:
  "(idle_run cfg (listener_start s0) envs
      \<longrightarrow> poll_interval (run_listener cfg (listener_start s0) envs)
            = backoff_table (length envs))
   \<and> backoff_table 0 = 1.0
   \<and> backoff_table (Suc k) = min (fmul (backoff_table k) (to_double 1.2)) 3.0
   \<and> \<bar>backoff_table k - min (1.0 * 1.2 ^ k) 3.0\<bar> \<le> 1 / 2 ^ 51
   \<and> (1 \<le> k \<and> k \<le> 6 \<longrightarrow> backoff_table k \<noteq> min (1.0 * 1.2 ^ k) 3.0)
   \<and> (listener_alive s \<and> listener_try cfg env s = (s', None)
        \<and> (\<exists>c \<in> set (calls_since s s'). is_process c)
      \<longrightarrow> poll_interval (listener_cycle cfg s env) = 0.5)"
proof (intro conjI impI)
  assume i: "idle_run cfg (listener_start s0) envs"
  have "listener_alive (listener_start s0)" "poll_interval (listener_start s0) = backoff_table 0"
    by (simp_all add: listener_start_def backoff_table_def)
  from idle_run_interval[OF this i]
  show "poll_interval (run_listener cfg (listener_start s0) envs) = backoff_table (length envs)"
    by simp
next
  show "backoff_table 0 = 1.0" by (simp add: backoff_table_def)
next
  show "backoff_table (Suc k) = min (fmul (backoff_table k) (to_double 1.2)) 3.0"
    using backoff_table_step[of k] by simp
next
  show "\<bar>backoff_table k - min (1.0 * 1.2 ^ k) 3.0\<bar> \<le> 1 / 2 ^ 51"
    using backoff_table_close[of k] by simp
next
  assume "1 \<le> k \<and> k \<le> 6"
  then consider "k = 1" | "k = 2" | "k = 3" | "k = 4" | "k = 5" | "k = 6" by linarith
  then show "backoff_table k \<noteq> min (1.0 * 1.2 ^ k) 3.0"
    by cases (simp_all add: backoff_table_def power_numeral_reduce)
next
  assume a: "listener_alive s \<and> listener_try cfg env s = (s', None)
        \<and> (\<exists>c \<in> set (calls_since s s'). is_process c)"
  then have "had_messages s'" using listener_try_process_had by blast
  then show "poll_interval (listener_cycle cfg s env) = 0.5"
    using a listener_cycle_normal(1)[of s cfg env s'] by (simp add: adjust_interval_def)
qed

lemma listener_start_state0: "listener_start state0 = state0"
  by (simp add: listener_start_def state0_def)

lemma quiet_cycle:
  "listener_try config0 listener_env_ok (state0\<lparr>poll_interval := p, calls := cs\<rparr>)
     = (state0\<lparr>poll_interval := p, calls := cs @ [GetLatest]\<rparr>, None)"
  "listener_cycle config0 (state0\<lparr>poll_interval := p, calls := cs\<rparr>) listener_env_ok
     = state0\<lparr>poll_interval := min (fmul p (to_double 1.2)) 3, calls := cs @ [GetLatest]\<rparr>"
  by (simp_all add: listener_defs listener_env_ok_def state0_def)

lemma quiet_cycle_idle:
  "idle_cycle config0 (state0\<lparr>poll_interval := p, calls := cs\<rparr>) listener_env_ok"
  by (simp add: idle_cycle_def quiet_cycle calls_since_def is_process_def)

lemma state0_as_update: "state0 = state0\<lparr>poll_interval := 1, calls := []\<rparr>"
  by (simp add: state0_def)

lemma ping_try:
  "listener_try config0 ping_env state0 =
     (state0\<lparr>processed_set := {(ascii ''2'')}, processed_order := [(ascii ''2'')], sent_buffer := [(ascii ''pong'')],
            had_messages := True, total_messages := 1,
            calls := [GetLatest, Process (text_msg (ascii ''2'') (ascii ''/ping'')), SendText (ascii ''pong'')]\<rparr>, None)"
  by (simp add: listener_defs ping_env_def pong_env_def listener_env_ok_def state0_def
        config0_def text_msg_def)

lemma idle_run_quiet:
  "idle_run config0 (state0\<lparr>poll_interval := p, calls := cs\<rparr>) (replicate n listener_env_ok)"
  by (induction n arbitrary: p cs) (simp_all add: quiet_cycle quiet_cycle_idle)

theorem backoff_law_witness:
  "idle_run config0 (listener_start state0) (replicate 3 listener_env_ok)
   \<and> poll_interval (run_listener config0 (listener_start state0) (replicate 3 listener_env_ok))
       = 7782220156096217 / 4503599627370496
   \<and> idle_run config0 (listener_start state0) (replicate 6 listener_env_ok)
   \<and> poll_interval (run_listener config0 (listener_start state0) (replicate 6 listener_env_ok))
       = 6723838214867131 / 2251799813685248
   \<and> poll_interval (run_listener config0 (listener_start state0) (replicate 6 listener_env_ok))
       \<noteq> min (1.0 * 1.2 ^ 6) 3.0
   \<and> idle_run config0 (listener_start state0) (replicate 7 listener_env_ok)
   \<and> poll_interval (run_listener config0 (listener_start state0) (replicate 7 listener_env_ok))
       = 3
   \<and> listener_alive state0
   \<and> Process (text_msg (ascii ''2'') (ascii ''/ping'')) \<in> set (calls_since state0 (fst (listener_try config0 ping_env state0)))
   \<and> poll_interval (listener_cycle config0 state0 ping_env) = 0.5"
proof -
  have s: "listener_start state0 = state0\<lparr>poll_interval := 1, calls := []\<rparr>"
    by (simp add: listener_start_def state0_def)
  have i: "idle_run config0 (listener_start state0) (replicate n listener_env_ok)" for n
    unfolding s by (rule idle_run_quiet)
  have r: "poll_interval (run_listener config0 (listener_start state0) (replicate n listener_env_ok))
      = backoff_table n" for n
    using backoff_law[of config0 state0 "replicate n listener_env_ok"] i[of n] by simp
  have 3: "backoff_table 3 = 7782220156096217 / 4503599627370496"
    "backoff_table 6 = 6723838214867131 / 2251799813685248" "backoff_table 7 = 3"
    by (simp_all add: backoff_table_def)
  have 6: "backoff_table 6 \<noteq> min (1.0 * 1.2 ^ 6) 3.0"
    using backoff_law[where k = 6] by simp
  have a: "listener_alive state0" by (simp add: state0_def)
  have c: "calls state0 = []" by (simp add: state0_def)
  let ?s' = "fst (listener_try config0 ping_env state0)"
  have t: "listener_try config0 ping_env state0 = (?s', None)"
    by (simp add: ping_try)
  have p: "Process (text_msg (ascii ''2'') (ascii ''/ping'')) \<in> set (calls_since state0 ?s')"
    by (simp add: ping_try calls_since_def c)
  then have "\<exists>c \<in> set (calls_since state0 ?s'). is_process c"
    by (rule bexI[rotated]) (simp add: is_process_def)
  then have 2: "poll_interval (listener_cycle config0 state0 ping_env) = 0.5"
    using backoff_law[of config0 state0 "[]" _ state0 ping_env ?s'] a t by blast
  show ?thesis
    unfolding r using i[of 3] i[of 6] i[of 7] 3 6 a p 2 by (simp only: simp_thms)
qed

text \<open>
  As the specification words it, the property fails on a cycle that dispatches a message and then
  raises: the handler of the cycle sets the interval to 3.0.
\<close>

theorem backoff_reset_counterexample:
  "listener_alive state0
   \<and> Process (text_msg (ascii ''1'') (ascii ''hi'')) \<in> set (calls_since state0 (listener_cycle config0 state0 failing_env))
   \<and> total_messages (listener_cycle config0 state0 failing_env) = total_messages state0 + 1
   \<and> poll_interval (listener_cycle config0 state0 failing_env) = 3.0
   \<and> poll_interval (listener_cycle config0 state0 failing_env) \<noteq> 0.5"
  by (simp add: listener_defs failing_env_def listener_env_ok_def state0_def config0_def
        text_msg_def calls_since_def)

subsection \<open>The reconnect counter\<close>

lemma handle_msg_login:
  "reconnect_attempts (fst (handle_msg cfg env m t)) = reconnect_attempts t"
  "is_logged_in (fst (handle_msg cfg env m t)) = is_logged_in t"
  "count_list (calls (fst (handle_msg cfg env m t))) LoadSession = count_list (calls t) LoadSession"
  by (auto simp: handle_msg_def Let_def and_then_alt download_step_def
        reply_step_def count_message_def log_call_def split: option.splits sum.splits)

lemma for_messages_login:
  "reconnect_attempts (fst (for_messages cfg env ms t)) = reconnect_attempts t
   \<and> is_logged_in (fst (for_messages cfg env ms t)) = is_logged_in t
   \<and> count_list (calls (fst (for_messages cfg env ms t))) LoadSession
       = count_list (calls t) LoadSession"
proof (induction ms arbitrary: t)
  case Nil
  then show ?case by simp
next
  case (Cons m ms)
  show ?case
    using Cons[of "fst (handle_msg cfg env m t)"]
    by (cases "snd (handle_msg cfg env m t)") (simp_all add: and_then_alt handle_msg_login)
qed

lemma poll_messages_login:
  "reconnect_attempts (fst (poll_messages cfg env t)) = reconnect_attempts t
   \<and> is_logged_in (fst (poll_messages cfg env t)) = is_logged_in t
   \<and> count_list (calls (fst (poll_messages cfg env t))) LoadSession
       = count_list (calls t) LoadSession"
proof -
  have "reconnect_attempts (fst (and_then (for_messages cfg env ms u) resync)) = reconnect_attempts u
   \<and> is_logged_in (fst (and_then (for_messages cfg env ms u) resync)) = is_logged_in u
   \<and> count_list (calls (fst (and_then (for_messages cfg env ms u) resync))) LoadSession
       = count_list (calls u) LoadSession" for ms u
    using for_messages_login[of cfg env ms u]
    by (cases "snd (for_messages cfg env ms u)") (simp_all add: and_then_alt resync_def)
  from this[of _ "log_call GetLatest t"] show ?thesis
    by (auto simp: poll_messages_def log_call_def split: sum.splits)
qed

lemma listener_try_login:
  "reconnect_attempts (fst (listener_try cfg env s))
     = (if \<not> is_logged_in s \<and> check_login env = Inr True then 0 else reconnect_attempts s)"
  "count_list (calls (fst (listener_try cfg env s))) LoadSession = count_list (calls s) LoadSession"
proof -
  let ?l = "login_check env (s\<lparr>had_messages := False\<rparr>)"
  have l: "reconnect_attempts (fst ?l)
      = (if \<not> is_logged_in s \<and> check_login env = Inr True then 0 else reconnect_attempts s)"
    "count_list (calls (fst ?l)) LoadSession = count_list (calls s) LoadSession"
    by (auto simp: login_check_def Let_def log_call_def split: sum.splits)
  show "reconnect_attempts (fst (listener_try cfg env s))
     = (if \<not> is_logged_in s \<and> check_login env = Inr True then 0 else reconnect_attempts s)"
    using l(1) poll_messages_login[of cfg env "fst ?l"]
    by (cases "snd ?l") (simp_all add: listener_try_def and_then_alt)
  show "count_list (calls (fst (listener_try cfg env s))) LoadSession = count_list (calls s) LoadSession"
    using l(2) poll_messages_login[of cfg env "fst ?l"]
    by (cases "snd ?l") (simp_all add: listener_try_def and_then_alt)
qed

lemma listener_cycle_login:
  "reconnect_attempts (listener_cycle cfg s env)
     = (if listener_alive s \<and> \<not> is_logged_in s \<and> check_login env = Inr True then 0
        else reconnect_attempts s)"
  "count_list (calls (listener_cycle cfg s env)) LoadSession = count_list (calls s) LoadSession"
proof -
  obtain s' r where t: "listener_try cfg env s = (s', r)" by (cases "listener_try cfg env s")
  have c: "reconnect_attempts (listener_cycle cfg s env)
      = (if listener_alive s then reconnect_attempts s' else reconnect_attempts s)"
    "calls (listener_cycle cfg s env) = (if listener_alive s then calls s' else calls s)"
    by (auto simp: listener_cycle_def t adjust_interval_def add_error_def Let_def
          split: option.splits exn.splits)
  show "reconnect_attempts (listener_cycle cfg s env)
     = (if listener_alive s \<and> \<not> is_logged_in s \<and> check_login env = Inr True then 0
        else reconnect_attempts s)"
    using c(1) listener_try_login(1)[of cfg env s] t by simp
  show "count_list (calls (listener_cycle cfg s env)) LoadSession = count_list (calls s) LoadSession"
    using c(2) listener_try_login(2)[of cfg env s] t by simp
qed

lemma reconnect_step_counter:
  "reconnect_attempts (fst (reconnect_step env s)) = reconnect_attempts s"
  by (simp add: reconnect_step_def Let_def log_call_def split: sum.splits)

lemma heartbeat_tick_counter:
  "reconnect_attempts (heartbeat_tick cfg s env)
     = reconnect_attempts s + (if detects s env then 1 else 0)"
  by (auto simp: heartbeat_tick_def heartbeat_try_def detects_def Let_def log_call_def
        add_error_def reconnect_step_def split: sum.splits option.splits exn.splits)

lemma heartbeat_tick_recovered:
  assumes "heartbeat_alive s" and "is_logged_in s" and "recovered env"
    and "reconnect_attempts s + 1 \<le> max_reconnect_attempts cfg"
  shows "is_logged_in (heartbeat_tick cfg s env)"
    and "heartbeat_alive (heartbeat_tick cfg s env)"
    and "calls (heartbeat_tick cfg s env) = calls s @ [SyncCheck, LoadSession, CheckLogin]"
  using assms
  by (simp_all add: heartbeat_tick_def heartbeat_try_def recovered_def Let_def log_call_def
        reconnect_step_def)

lemma recovered_run:
  assumes "heartbeat_alive s" and "is_logged_in s" and "\<forall>e \<in> set envs. recovered e"
    and "reconnect_attempts s + int (length envs) \<le> max_reconnect_attempts cfg"
  shows "reconnect_attempts (foldl (heartbeat_tick cfg) s envs)
           = reconnect_attempts s + int (length envs)
       \<and> is_logged_in (foldl (heartbeat_tick cfg) s envs)"
  using assms
proof (induction envs arbitrary: s)
  case Nil
  then show ?case by simp
next
  case (Cons e envs)
  have r: "recovered e" and le: "reconnect_attempts s + 1 \<le> max_reconnect_attempts cfg"
    using Cons.prems by simp_all
  note h = heartbeat_tick_recovered[OF Cons.prems(1,2) r le]
  have d: "detects s e" using Cons.prems(1,2) r by (simp add: detects_def recovered_def)
  have c: "reconnect_attempts (heartbeat_tick cfg s e) = reconnect_attempts s + 1"
    by (simp add: heartbeat_tick_counter d)
  show ?case
    using Cons.IH[OF h(2) h(1)] Cons.prems c by simp
qed

text \<open>
  C10 (the monitor's own reconnect does not reset the counter). The reconnect attempt
  of the monitor leaves \<open>reconnect_attempts\<close> as it is, also when the login check
  succeeds; a tick adds one for a detection and nothing otherwise; a call of the API
  leaves the counter alone; a listener cycle sets it to 0 exactly when the listener is
  logged out and its own login check succeeds, and leaves it alone otherwise. So a run
  of episodes that the monitor recovers itself adds one per episode.
\<close>

theorem heartbeat_reconnect_keeps_counter:
  "reconnect_attempts (fst (reconnect_step env s)) = reconnect_attempts s
   \<and> reconnect_attempts (step cfg s (HeartbeatTick env))
       = reconnect_attempts s + (if detects s env then 1 else 0)
   \<and> reconnect_attempts (step cfg s (ApiLogin b)) = reconnect_attempts s
   \<and> reconnect_attempts (step cfg s (ListenerCycle lenv))
       = (if listener_alive s \<and> \<not> is_logged_in s \<and> check_login lenv = Inr True then 0
          else reconnect_attempts s)
   \<and> (heartbeat_alive s \<and> is_logged_in s \<and> (\<forall>e \<in> set envs. recovered e)
        \<and> reconnect_attempts s + int (length envs) \<le> max_reconnect_attempts cfg
      \<longrightarrow> reconnect_attempts (foldl (heartbeat_tick cfg) s envs)
             = reconnect_attempts s + int (length envs)
          \<and> is_logged_in (foldl (heartbeat_tick cfg) s envs))"
  using recovered_run[of s envs cfg]
  by (simp add: reconnect_step_counter heartbeat_tick_counter listener_cycle_login)

lemma recovering_env_recovered: "recovered recovering_env"
  by (simp add: recovered_def recovering_env_def)

theorem heartbeat_reconnect_keeps_counter_witness:
  "heartbeat_alive state0 \<and> is_logged_in state0
   \<and> list_all recovered [recovering_env, recovering_env, recovering_env]
   \<and> reconnect_attempts state0 + 3 \<le> max_reconnect_attempts config0
   \<and> reconnect_attempts (foldl (heartbeat_tick config0) state0
        [recovering_env, recovering_env, recovering_env]) = 3
   \<and> is_logged_in (foldl (heartbeat_tick config0) state0
        [recovering_env, recovering_env, recovering_env])"
proof -
  have s: "heartbeat_alive state0" "is_logged_in state0" "reconnect_attempts state0 = 0"
    "max_reconnect_attempts config0 = 10"
    by (simp_all add: state0_def config0_def)
  show ?thesis
    using heartbeat_reconnect_keeps_counter[of recovering_env state0 config0 True listener_env_ok
        "[recovering_env, recovering_env, recovering_env]"]
    by (simp add: s recovering_env_recovered)
qed

subsection \<open>The cap on reconnect attempts\<close>

lemma step_counter:
  "reconnect_attempts (step cfg s ev)
     = (if resets_counter s ev then 0
        else reconnect_attempts s + (if detected s ev then 1 else 0))"
  by (cases ev)
     (simp_all add: resets_counter_def detected_def heartbeat_tick_counter listener_cycle_login)

lemma counter_counts_detections:
  "no_listener_reset cfg s evs
   \<Longrightarrow> reconnect_attempts (run cfg s evs) = reconnect_attempts s + int (detections cfg s evs)"
proof (induction evs arbitrary: s)
  case Nil
  then show ?case by (simp add: run_def)
next
  case (Cons ev evs)
  then have "reconnect_attempts (run cfg (step cfg s ev) evs)
      = reconnect_attempts (step cfg s ev) + int (detections cfg (step cfg s ev) evs)"
    by simp
  then show ?case
    using Cons.prems by (simp add: run_def step_counter)
qed

lemma exhausted_tick:
  assumes "detects s env" and "max_reconnect_attempts cfg \<le> reconnect_attempts s"
  shows "calls (heartbeat_tick cfg s env) = calls s @ [SyncCheck]"
    and "\<not> is_logged_in (heartbeat_tick cfg s env)"
    and "errors (heartbeat_tick cfg s env)
          = drop (length (errors s) + 1 - 20)
              (errors s @ [\<lparr>err_time = hb_error_time env, err_text = exhaustion_text cfg\<rparr>])"
  using assms
  by (simp_all add: heartbeat_tick_def heartbeat_try_def detects_def Let_def log_call_def
        add_error_def exhaustion_text_def)

lemma add_error_keeps:
  "calls (add_error t e s) = calls s" "reconnect_attempts (add_error t e s) = reconnect_attempts s"
  "is_logged_in (add_error t e s) = is_logged_in s"
  by (simp_all add: add_error_def Let_def)

lemma heartbeat_try_no_attempt:
  assumes "max_reconnect_attempts cfg < reconnect_attempts s"
  shows "count_list (calls (fst (heartbeat_try cfg env s))) LoadSession
           = count_list (calls s) LoadSession"
  using assms
  by (auto simp: heartbeat_try_def Let_def log_call_def add_error_keeps split: sum.splits)

lemma heartbeat_tick_no_attempt:
  assumes "max_reconnect_attempts cfg < reconnect_attempts s"
  shows "count_list (calls (heartbeat_tick cfg s env)) LoadSession = count_list (calls s) LoadSession"
proof -
  obtain s' r where t: "heartbeat_try cfg env s = (s', r)" by (cases "heartbeat_try cfg env s")
  have "calls (heartbeat_tick cfg s env) = (if heartbeat_alive s then calls s' else calls s)"
    by (auto simp: heartbeat_tick_def t add_error_keeps split: option.splits exn.splits)
  then show ?thesis
    using heartbeat_try_no_attempt[OF assms, of env] t by simp
qed

lemma step_no_attempt:
  assumes "max_reconnect_attempts cfg < reconnect_attempts s" and "\<not> resets_counter s ev"
  shows "count_list (calls (step cfg s ev)) LoadSession = count_list (calls s) LoadSession"
    and "max_reconnect_attempts cfg < reconnect_attempts (step cfg s ev)"
proof -
  show "count_list (calls (step cfg s ev)) LoadSession = count_list (calls s) LoadSession"
    using assms(1) by (cases ev) (simp_all add: heartbeat_tick_no_attempt listener_cycle_login)
  show "max_reconnect_attempts cfg < reconnect_attempts (step cfg s ev)"
    using assms by (simp only: step_counter split: if_split) simp
qed

lemma exhausted_run:
  assumes "max_reconnect_attempts cfg < reconnect_attempts s" and "no_listener_reset cfg s evs"
  shows "count_list (calls (run cfg s evs)) LoadSession = count_list (calls s) LoadSession
       \<and> max_reconnect_attempts cfg < reconnect_attempts (run cfg s evs)"
  using assms
proof (induction evs arbitrary: s)
  case Nil
  then show ?case by (simp add: run_def)
next
  case (Cons ev evs)
  then have n: "\<not> resets_counter s ev" "no_listener_reset cfg (step cfg s ev) evs" by simp_all
  note st = step_no_attempt[OF Cons.prems(1) n(1)]
  show ?case
    using Cons.IH[OF st(2) n(2)] st(1) by (simp add: run_def)
qed

text \<open>
  C3 (reconnect cap), as the code has it. As long as no listener cycle resets the
  counter, \<open>reconnect_attempts\<close> grows by one with each logout the monitor detects. A
  detection made when the counter has reached \<open>max_reconnect_attempts\<close> (the
  \<open>max_reconnect_attempts + 1\<close>-th since the counter was 0, and each later one) calls
  nothing but the liveness probe, leaves the bot logged out and appends the entry
  \<open>Max reconnect attempts (N) reached\<close> to \<open>errors\<close>. Once the counter is above the
  maximum, the monitor loads no session again in any run in which no listener cycle
  resets the counter.
\<close>

theorem reconnect_cap:
  "(no_listener_reset cfg s evs
      \<longrightarrow> reconnect_attempts (run cfg s evs) = reconnect_attempts s + int (detections cfg s evs))
   \<and> (detects s env \<and> max_reconnect_attempts cfg \<le> reconnect_attempts s
      \<longrightarrow> calls (heartbeat_tick cfg s env) = calls s @ [SyncCheck]
          \<and> \<not> is_logged_in (heartbeat_tick cfg s env)
          \<and> reconnect_attempts (heartbeat_tick cfg s env) = reconnect_attempts s + 1
          \<and> errors (heartbeat_tick cfg s env)
              = drop (length (errors s) + 1 - 20)
                  (errors s @ [\<lparr>err_time = hb_error_time env, err_text = exhaustion_text cfg\<rparr>]))
   \<and> (max_reconnect_attempts cfg < reconnect_attempts s \<and> no_listener_reset cfg s evs
      \<longrightarrow> count_list (calls (run cfg s evs)) LoadSession = count_list (calls s) LoadSession
          \<and> max_reconnect_attempts cfg < reconnect_attempts (run cfg s evs))"
proof (intro conjI impI)
  assume "no_listener_reset cfg s evs"
  then show "reconnect_attempts (run cfg s evs) = reconnect_attempts s + int (detections cfg s evs)"
    by (rule counter_counts_detections)
next
  assume a: "detects s env \<and> max_reconnect_attempts cfg \<le> reconnect_attempts s"
  then have d: "detects s env" and m: "max_reconnect_attempts cfg \<le> reconnect_attempts s"
    by simp_all
  show "calls (heartbeat_tick cfg s env) = calls s @ [SyncCheck]"
    by (rule exhausted_tick(1)[OF d m])
  show "\<not> is_logged_in (heartbeat_tick cfg s env)"
    by (rule exhausted_tick(2)[OF d m])
  show "reconnect_attempts (heartbeat_tick cfg s env) = reconnect_attempts s + 1"
    using d by (simp add: heartbeat_tick_counter)
  show "errors (heartbeat_tick cfg s env)
              = drop (length (errors s) + 1 - 20)
                  (errors s @ [\<lparr>err_time = hb_error_time env, err_text = exhaustion_text cfg\<rparr>])"
    by (rule exhausted_tick(3)[OF d m])
next
  assume a: "max_reconnect_attempts cfg < reconnect_attempts s \<and> no_listener_reset cfg s evs"
  then show "count_list (calls (run cfg s evs)) LoadSession = count_list (calls s) LoadSession"
    using exhausted_run[of cfg s evs] by simp
  from a show "max_reconnect_attempts cfg < reconnect_attempts (run cfg s evs)"
    using exhausted_run[of cfg s evs] by simp
qed

lemmas heartbeat_defs =
  heartbeat_tick_def heartbeat_try_def reconnect_step_def add_error_def log_call_def
  py_str_int_def digit_char_def Let_def

lemma eleven_logouts_unfolded:
  "eleven_logouts =
     [HeartbeatTick failing_hb_env, ApiLogin True, HeartbeatTick failing_hb_env, ApiLogin True,
      HeartbeatTick failing_hb_env, ApiLogin True, HeartbeatTick failing_hb_env, ApiLogin True,
      HeartbeatTick failing_hb_env, ApiLogin True, HeartbeatTick failing_hb_env, ApiLogin True,
      HeartbeatTick failing_hb_env, ApiLogin True, HeartbeatTick failing_hb_env, ApiLogin True,
      HeartbeatTick failing_hb_env, ApiLogin True, HeartbeatTick failing_hb_env, ApiLogin True,
      HeartbeatTick failing_hb_env]"
  by (simp add: eleven_logouts_def eval_nat_numeral)


lemmas run_defs =
  run_def detected_def detects_def resets_counter_def state0_def config0_def
  failing_hb_env_def recovering_env_def listener_env_ok_def

lemma eleven_logouts_run:
  "run config0 state0 eleven_logouts =
     state0\<lparr>is_logged_in := False, reconnect_attempts := 11, last_heartbeat := 30,
            errors := [\<lparr>err_time = 31, err_text = (ascii ''Max reconnect attempts (10) reached'')\<rparr>],
            calls := concat (replicate 10 [SyncCheck, LoadSession, CheckLogin]) @ [SyncCheck]\<rparr>"
proof -
  have c: "concat (replicate 10 [SyncCheck, LoadSession, CheckLogin]) @ [SyncCheck]
      = [SyncCheck, LoadSession, CheckLogin, SyncCheck, LoadSession, CheckLogin,
         SyncCheck, LoadSession, CheckLogin, SyncCheck, LoadSession, CheckLogin,
         SyncCheck, LoadSession, CheckLogin, SyncCheck, LoadSession, CheckLogin,
         SyncCheck, LoadSession, CheckLogin, SyncCheck, LoadSession, CheckLogin,
         SyncCheck, LoadSession, CheckLogin, SyncCheck, LoadSession, CheckLogin, SyncCheck]"
    by (simp add: eval_nat_numeral)
  show ?thesis
    unfolding c
    by (simp add: eleven_logouts_unfolded heartbeat_defs run_defs)
qed

lemma eleven_logouts_counted:
  "detections config0 state0 eleven_logouts = 11"
  "no_listener_reset config0 state0 eleven_logouts"
  by (simp_all add: eleven_logouts_unfolded heartbeat_defs run_defs)

theorem reconnect_cap_witness:
  "no_listener_reset config0 state0 eleven_logouts
   \<and> reconnect_attempts (run config0 state0 eleven_logouts) = 11
   \<and> detects (state0\<lparr>reconnect_attempts := 10\<rparr>) failing_hb_env
   \<and> calls (heartbeat_tick config0 (state0\<lparr>reconnect_attempts := 10\<rparr>) failing_hb_env) = [SyncCheck]
   \<and> errors (heartbeat_tick config0 (state0\<lparr>reconnect_attempts := 10\<rparr>) failing_hb_env)
       = [\<lparr>err_time = 31, err_text = (ascii ''Max reconnect attempts (10) reached'')\<rparr>]
   \<and> max_reconnect_attempts config0 < reconnect_attempts (state0\<lparr>reconnect_attempts := 11\<rparr>)
   \<and> no_listener_reset config0 (state0\<lparr>reconnect_attempts := 11\<rparr>)
        [HeartbeatTick recovering_env, ApiLogin True, HeartbeatTick recovering_env]
   \<and> count_list (calls (run config0 (state0\<lparr>reconnect_attempts := 11\<rparr>)
        [HeartbeatTick recovering_env, ApiLogin True, HeartbeatTick recovering_env])) LoadSession = 0"
proof -
  let ?evs = "[HeartbeatTick recovering_env, ApiLogin True, HeartbeatTick recovering_env]"
  have 1: "reconnect_attempts (run config0 state0 eleven_logouts) = 11"
    using reconnect_cap[of config0 state0 eleven_logouts] eleven_logouts_counted
    by (simp add: state0_def)
  have d: "detects (state0\<lparr>reconnect_attempts := 10\<rparr>) failing_hb_env"
    "max_reconnect_attempts config0 \<le> reconnect_attempts (state0\<lparr>reconnect_attempts := 10\<rparr>)"
    by (simp_all add: run_defs)
  have x: "exhaustion_text config0 = (ascii ''Max reconnect attempts (10) reached'')"
    by (simp add: exhaustion_text_def config0_def py_str_int_def digit_char_def)
  have 2: "calls (heartbeat_tick config0 (state0\<lparr>reconnect_attempts := 10\<rparr>) failing_hb_env) = [SyncCheck]
    \<and> errors (heartbeat_tick config0 (state0\<lparr>reconnect_attempts := 10\<rparr>) failing_hb_env)
       = [\<lparr>err_time = 31, err_text = (ascii ''Max reconnect attempts (10) reached'')\<rparr>]"
    using reconnect_cap[of config0 "state0\<lparr>reconnect_attempts := 10\<rparr>" "[]" failing_hb_env] d x
    by (simp add: state0_def failing_hb_env_def recovering_env_def)
  have m: "max_reconnect_attempts config0 < reconnect_attempts (state0\<lparr>reconnect_attempts := 11\<rparr>)"
    by (simp add: config0_def)
  have n: "no_listener_reset config0 (state0\<lparr>reconnect_attempts := 11\<rparr>) ?evs"
    by (simp add: heartbeat_defs run_defs)
  have 3: "count_list (calls (run config0 (state0\<lparr>reconnect_attempts := 11\<rparr>) ?evs)) LoadSession = 0"
    using reconnect_cap[of config0 "state0\<lparr>reconnect_attempts := 11\<rparr>" ?evs] m n
    by (simp add: state0_def)
  show ?thesis
    using eleven_logouts_counted(2) 1 d(1) 2 m n 3 by blast
qed

text \<open>
  As the specification words it, the property fails: after eleven detections in a row with no reconnect
  that succeeded, the monitor has given up and recorded it; the next listener cycle
  still calls \<open>check_login_status\<close>, finds the login restored and resets the counter,
  and at the next logout the monitor loads the session again.
\<close>

theorem reconnect_after_exhaustion_counterexample:
  "detections config0 state0 eleven_logouts = 11
   \<and> no_listener_reset config0 state0 eleven_logouts
   \<and> reconnect_attempts (run config0 state0 eleven_logouts) = max_reconnect_attempts config0 + 1
   \<and> err_text (last (errors (run config0 state0 eleven_logouts)))
       = (ascii ''Max reconnect attempts (10) reached'')
   \<and> calls (run config0 state0 (eleven_logouts @ after_exhaustion))
       = calls (run config0 state0 eleven_logouts)
         @ [CheckLogin, GetLatest, SyncCheck, LoadSession, CheckLogin]
   \<and> reconnect_attempts (run config0 state0 (eleven_logouts @ after_exhaustion)) = 1"
proof -
  have r: "run config0 state0 (eleven_logouts @ after_exhaustion)
      = run config0 (run config0 state0 eleven_logouts) after_exhaustion"
    by (simp add: run_def)
  have a: "calls (run config0 state0 (eleven_logouts @ after_exhaustion))
       = calls (run config0 state0 eleven_logouts)
         @ [CheckLogin, GetLatest, SyncCheck, LoadSession, CheckLogin]"
    "reconnect_attempts (run config0 state0 (eleven_logouts @ after_exhaustion)) = 1"
    unfolding r eleven_logouts_run
    by (simp_all add: after_exhaustion_def listener_defs heartbeat_defs run_defs)
  have m: "max_reconnect_attempts config0 + 1 = 11" by (simp add: config0_def)
  have b: "reconnect_attempts (run config0 state0 eleven_logouts) = 11"
    "err_text (last (errors (run config0 state0 eleven_logouts)))
       = (ascii ''Max reconnect attempts (10) reached'')"
    by (simp_all add: eleven_logouts_run)
  show ?thesis
    using a b eleven_logouts_counted by (simp only: m simp_thms)
qed

subsection \<open>The pattern of \<open>time_hm\<close>\<close>

lemma concat_map_concat:
  "concat (map f (concat xss)) = concat (map (\<lambda>xs. concat (map f xs)) xss)"
  by (induction xss) simp_all

lemma match_Seq_assoc:
  "match_prefix eng (Seq (Seq r1 r2) r3) s = match_prefix eng (Seq r1 (Seq r2 r3)) s"
proof -
  have "match_prefix eng (Seq (Seq r1 r2) r3) s
      = concat (map (match_prefix eng r3)
                 (concat (map (match_prefix eng r2) (match_prefix eng r1 s))))"
    by simp
  also have "\<dots> = concat (map (\<lambda>xs. concat (map (match_prefix eng r3) xs))
                        (map (match_prefix eng r2) (match_prefix eng r1 s)))"
    by (rule concat_map_concat)
  also have "\<dots> = concat (map (\<lambda>x. concat (map (match_prefix eng r3) (match_prefix eng r2 x)))
                        (match_prefix eng r1 s))"
    by (simp add: comp_def)
  also have "\<dots> = match_prefix eng (Seq r1 (Seq r2 r3)) s"
  proof -
    have "match_prefix eng (Seq r2 r3)
        = (\<lambda>x. concat (map (match_prefix eng r3) (match_prefix eng r2 x)))"
      by (rule ext) simp
    then show ?thesis by simp
  qed
  finally show ?thesis .
qed

lemma match_Seq_Alt:
  "match_prefix eng (Seq (Alt r1 r2) r3) s
     = match_prefix eng (Seq r1 r3) s @ match_prefix eng (Seq r2 r3) s"
  by simp

lemma peel_Lit:
  "(r0 \<in> set (match_prefix eng (Seq (Lit a) r) s))
     = (\<exists>cs. s = a # cs \<and> r0 \<in> set (match_prefix eng r cs))"
  by (cases s) auto

lemma peel_Range:
  "(r0 \<in> set (match_prefix eng (Seq (Range lo hi) r) s))
     = (\<exists>c cs. s = c # cs \<and> in_range lo hi c \<and> r0 \<in> set (match_prefix eng r cs))"
  by (cases s) auto

lemma peel_OneOf:
  "(r0 \<in> set (match_prefix eng (Seq (OneOf as) r) s))
     = (\<exists>c cs. s = c # cs \<and> c \<in> set as \<and> r0 \<in> set (match_prefix eng r cs))"
  by (cases s) auto

lemma peel_Digit:
  "(r0 \<in> set (match_prefix eng (Seq Digit r) s))
     = (\<exists>c cs. s = c # cs \<and> decimal_digit eng c \<and> r0 \<in> set (match_prefix eng r cs))"
  by (cases s) auto

lemma end_Digit:
  "(r0 \<in> set (match_prefix eng Digit s)) = (\<exists>c. s = c # r0 \<and> decimal_digit eng c)"
  by (cases s) auto

lemma rest_shape:
  "(r0 \<in> set (match_prefix eng (Seq (Lit 58) (Seq (Range 48 53) Digit)) t))
      = (\<exists>c d. t = 58 # c # d # r0 \<and> in_range 48 53 c \<and> decimal_digit eng d)"
  unfolding peel_Lit peel_Range end_Digit by auto

lemma hour_shape_01:
  "(r0 \<in> set (match_prefix eng (Seq (OneOf [48, 49]) (Seq Digit r)) s))
     = (\<exists>a b t. s = a # b # t \<and> (a = 48 \<or> a = 49) \<and> decimal_digit eng b
          \<and> r0 \<in> set (match_prefix eng r t))"
  unfolding peel_OneOf peel_Digit by auto

lemma hour_shape_2:
  "(r0 \<in> set (match_prefix eng (Seq (Lit 50) (Seq (Range 48 51) r)) s))
     = (\<exists>b t. s = 50 # b # t \<and> in_range 48 51 b \<and> r0 \<in> set (match_prefix eng r t))"
  unfolding peel_Lit peel_Range by auto

lemma time_hm_pattern_num:
  "time_hm_pattern =
     Seq (Alt (Seq (OneOf [48, 49]) Digit) (Seq (Lit 50) (Range 48 51)))
         (Seq (Lit 58) (Seq (Range 48 53) Digit))"
  by (simp add: time_hm_pattern_def)

lemma time_hm_pattern_shape:
  "(r0 \<in> set (match_prefix eng time_hm_pattern s)) \<longleftrightarrow>
     (\<exists>a b c d. s = a # b # 58 # c # d # r0
        \<and> (((a = 48 \<or> a = 49) \<and> decimal_digit eng b) \<or> (a = 50 \<and> in_range 48 51 b))
        \<and> in_range 48 53 c \<and> decimal_digit eng d)"
proof -
  let ?rest = "Seq (Lit 58) (Seq (Range 48 53) Digit)"
  have "(r0 \<in> set (match_prefix eng time_hm_pattern s))
      = (r0 \<in> set (match_prefix eng (Seq (OneOf [48, 49]) (Seq Digit ?rest)) s)
         \<or> r0 \<in> set (match_prefix eng (Seq (Lit 50) (Seq (Range 48 51) ?rest)) s))"
    unfolding time_hm_pattern_num
    by (simp only: match_Seq_Alt match_Seq_assoc set_append Un_iff)
  then show ?thesis
    unfolding hour_shape_01 hour_shape_2 rest_shape by auto
qed

lemma valid_time_hm_digits:
  "valid_time_hm s \<longleftrightarrow>
     (\<exists>x y u v. s = [48 + x, 48 + y, 58, 48 + u, 48 + v]
        \<and> ((x \<le> 1 \<and> y \<le> 9) \<or> (x = 2 \<and> y \<le> 3)) \<and> u \<le> 5 \<and> v \<le> 9)"
proof
  assume "valid_time_hm s"
  then obtain h m where hm: "h < 24" "m < 60" "s = hh_mm h m"
    by (auto simp: valid_time_hm_def)
  have "(h div 10 \<le> 1 \<and> h mod 10 \<le> 9) \<or> (h div 10 = 2 \<and> h mod 10 \<le> 3)"
    using hm(1) by presburger
  moreover have "m div 10 \<le> 5" "m mod 10 \<le> 9" using hm(2) by presburger+
  ultimately show "\<exists>x y u v. s = [48 + x, 48 + y, 58, 48 + u, 48 + v]
        \<and> ((x \<le> 1 \<and> y \<le> 9) \<or> (x = 2 \<and> y \<le> 3)) \<and> u \<le> 5 \<and> v \<le> 9"
    unfolding hm(3) hh_mm_def two_digits_def digit_char_def
    by (intro exI[of _ "h div 10"] exI[of _ "h mod 10"]
        exI[of _ "m div 10"] exI[of _ "m mod 10"]) simp
next
  assume "\<exists>x y u v. s = [48 + x, 48 + y, 58, 48 + u, 48 + v]
        \<and> ((x \<le> 1 \<and> y \<le> 9) \<or> (x = 2 \<and> y \<le> 3)) \<and> u \<le> 5 \<and> v \<le> 9"
  then obtain x y u v where
    s: "s = [48 + x, 48 + y, 58, 48 + u, 48 + v]"
    and h: "(x \<le> 1 \<and> y \<le> 9) \<or> (x = 2 \<and> y \<le> 3)" and m: "u \<le> 5" "v \<le> 9"
    by blast
  have y: "y \<le> 9" using h by auto
  have 1: "10 * x + y < 24" using h by auto
  have 2: "10 * u + v < 60" using m by simp
  have 3: "(10 * x + y) div 10 = x" "(10 * x + y) mod 10 = y" using y by simp_all
  have 4: "(10 * u + v) div 10 = u" "(10 * u + v) mod 10 = v" using m by simp_all
  have "s = hh_mm (10 * x + y) (10 * u + v)"
    unfolding s hh_mm_def two_digits_def digit_char_def 3 4 by simp
  with 1 2 show "valid_time_hm s"
    unfolding valid_time_hm_def by (intro bexI[of _ "10 * x + y"] bexI[of _ "10 * u + v"]) simp_all
qed

lemma valid_time_hm_shape:
  "valid_time_hm s \<longleftrightarrow>
     (\<exists>a b c d. s = [a, b, 58, c, d]
        \<and> (((a = 48 \<or> a = 49) \<and> in_range 48 57 b) \<or> (a = 50 \<and> in_range 48 51 b))
        \<and> in_range 48 53 c \<and> in_range 48 57 d)"
proof
  assume "valid_time_hm s"
  then obtain x y u v where
    s: "s = [48 + x, 48 + y, 58, 48 + u, 48 + v]"
    and h: "(x \<le> 1 \<and> y \<le> 9) \<or> (x = 2 \<and> y \<le> 3)" and m: "u \<le> 5" "v \<le> 9"
    unfolding valid_time_hm_digits by blast
  have "((48 + x = 48 \<or> 48 + x = 49) \<and> in_range 48 57 (48 + y))
        \<or> (48 + x = 50 \<and> in_range 48 51 (48 + y))"
    using h by (auto simp: in_range_def)
  moreover have "in_range 48 53 (48 + u)" "in_range 48 57 (48 + v)"
    using m by (simp_all add: in_range_def)
  ultimately show "\<exists>a b c d. s = [a, b, 58, c, d]
        \<and> (((a = 48 \<or> a = 49) \<and> in_range 48 57 b) \<or> (a = 50 \<and> in_range 48 51 b))
        \<and> in_range 48 53 c \<and> in_range 48 57 d"
    unfolding s by blast
next
  assume "\<exists>a b c d. s = [a, b, 58, c, d]
        \<and> (((a = 48 \<or> a = 49) \<and> in_range 48 57 b) \<or> (a = 50 \<and> in_range 48 51 b))
        \<and> in_range 48 53 c \<and> in_range 48 57 d"
  then obtain a b c d where
    s: "s = [a, b, 58, c, d]"
    and h: "((a = 48 \<or> a = 49) \<and> in_range 48 57 b) \<or> (a = 50 \<and> in_range 48 51 b)"
    and m: "in_range 48 53 c" "in_range 48 57 d"
    by blast
  have e: "a = 48 + (a - 48)" "b = 48 + (b - 48)" "c = 48 + (c - 48)" "d = 48 + (d - 48)"
    using h m by (auto simp: in_range_def)
  have "s = [48 + (a - 48), 48 + (b - 48), 58, 48 + (c - 48), 48 + (d - 48)]"
    unfolding s using e by simp
  moreover have "(a - 48 \<le> 1 \<and> b - 48 \<le> 9) \<or> (a - 48 = 2 \<and> b - 48 \<le> 3)"
    using h by (auto simp: in_range_def)
  moreover have "c - 48 \<le> 5" "d - 48 \<le> 9" using m by (auto simp: in_range_def)
  ultimately show "valid_time_hm s"
    unfolding valid_time_hm_digits by blast
qed

lemma nd_ascii:
  assumes "ascii_digits eng" and "c < 128"
  shows "decimal_digit eng c = in_range 48 57 c"
proof -
  have "\<forall>c \<in> {0..<128}. decimal_digit eng c = (48 \<le> c \<and> c \<le> 57)"
    using assms(1) unfolding ascii_digits_def list_all_iff set_upt .
  with assms(2) show ?thesis by (simp add: in_range_def)
qed

lemma pattern_accepts_valid:
  assumes "ascii_digits eng" and "valid_time_hm s"
  shows "[] \<in> set (match_prefix eng time_hm_pattern s)"
proof -
  from assms(2) obtain a b c d where
    s: "s = [a, b, 58, c, d]"
    and h: "((a = 48 \<or> a = 49) \<and> in_range 48 57 b) \<or> (a = 50 \<and> in_range 48 51 b)"
    and m: "in_range 48 53 c" "in_range 48 57 d"
    unfolding valid_time_hm_shape by blast
  have "b < 128 \<or> a = 50" "d < 128" using h m by (auto simp: in_range_def)
  then have "((a = 48 \<or> a = 49) \<and> decimal_digit eng b) \<or> (a = 50 \<and> in_range 48 51 b)"
    "decimal_digit eng d"
    using h m nd_ascii[OF assms(1)] by auto
  with s m(1) show ?thesis unfolding time_hm_pattern_shape by blast
qed

lemma pattern_on_ascii:
  assumes "ascii_digits eng" and "ascii_only s"
  shows "(r0 \<in> set (match_prefix eng time_hm_pattern s))
           \<longleftrightarrow> (\<exists>t. s = t @ r0 \<and> valid_time_hm t)"
proof
  assume "r0 \<in> set (match_prefix eng time_hm_pattern s)"
  then obtain a b c d where
    s: "s = a # b # 58 # c # d # r0"
    and h: "((a = 48 \<or> a = 49) \<and> decimal_digit eng b) \<or> (a = 50 \<and> in_range 48 51 b)"
    and m: "in_range 48 53 c" "decimal_digit eng d"
    unfolding time_hm_pattern_shape by blast
  have "b < 128" "d < 128" using assms(2) by (simp_all add: ascii_only_def s)
  then have "((a = 48 \<or> a = 49) \<and> in_range 48 57 b) \<or> (a = 50 \<and> in_range 48 51 b)"
    "in_range 48 57 d"
    using h m nd_ascii[OF assms(1)] by auto
  with m(1) have "valid_time_hm [a, b, 58, c, d]" unfolding valid_time_hm_shape by blast
  moreover have "s = [a, b, 58, c, d] @ r0" by (simp add: s)
  ultimately show "\<exists>t. s = t @ r0 \<and> valid_time_hm t" by blast
next
  assume "\<exists>t. s = t @ r0 \<and> valid_time_hm t"
  then obtain t where t: "s = t @ r0" "valid_time_hm t" by blast
  then obtain a b c d where
    s: "t = [a, b, 58, c, d]"
    and h: "((a = 48 \<or> a = 49) \<and> in_range 48 57 b) \<or> (a = 50 \<and> in_range 48 51 b)"
    and m: "in_range 48 53 c" "in_range 48 57 d"
    unfolding valid_time_hm_shape by blast
  have "b < 128 \<or> a = 50" "d < 128" using h m by (auto simp: in_range_def)
  then have "((a = 48 \<or> a = 49) \<and> decimal_digit eng b) \<or> (a = 50 \<and> in_range 48 51 b)"
    "decimal_digit eng d"
    using h m nd_ascii[OF assms(1)] by auto
  moreover have "s = a # b # 58 # c # d # r0" by (simp add: t(1) s)
  ultimately show "r0 \<in> set (match_prefix eng time_hm_pattern s)"
    using m(1) unfolding time_hm_pattern_shape by blast
qed

lemma ends_with_line_feed:
  "(\<exists>t. s = t @ [10] \<and> valid_time_hm t) \<longleftrightarrow> (s \<noteq> [] \<and> last s = 10 \<and> valid_time_hm (butlast s))"
proof
  assume "\<exists>t. s = t @ [10] \<and> valid_time_hm t"
  then show "s \<noteq> [] \<and> last s = 10 \<and> valid_time_hm (butlast s)" by auto
next
  assume a: "s \<noteq> [] \<and> last s = 10 \<and> valid_time_hm (butlast s)"
  then have "s = butlast s @ [10]" using append_butlast_last_id[of s] by simp
  with a show "\<exists>t. s = t @ [10] \<and> valid_time_hm t" by blast
qed

lemma full_match_on_ascii:
  assumes "ascii_digits eng" and "ascii_only s"
  shows "full_match eng time_hm_pattern s
           \<longleftrightarrow> valid_time_hm s
                \<or> (dollar_before_newline eng \<and> s \<noteq> [] \<and> last s = 10 \<and> valid_time_hm (butlast s))"
  unfolding full_match_def pattern_on_ascii[OF assms] ends_with_line_feed by simp

lemma unicode_nd_ascii: "c < 128 \<Longrightarrow> unicode_nd c = (48 \<le> c \<and> c \<le> 57)"
  unfolding unicode_nd_def nd_zeros_def by (simp; arith)

lemma ascii_digits_unicode: "ascii_digits rust_regex" "ascii_digits python_re"
  unfolding ascii_digits_def list_all_iff set_upt
  by (simp_all add: rust_regex_def python_re_def unicode_nd_ascii)

text \<open>
  C8 (validation when a task is added). Whatever the Unicode version of the engine, the
  pattern of the request body lets every \<open>HH:MM\<close> with an hour from 00 to 23 and a
  minute from 00 to 59 through; among the strings of ASCII characters it lets through
  exactly those and, where \<open>$\<close> matches before a final line feed, those followed by a
  line feed. What else it lets through is left to the add operation of the processor,
  which the specification says rejects it: for a request with a command, the route
  answers with the created task exactly when \<open>time_hm\<close> has the format; any other
  \<open>time_hm\<close> is answered synchronously with an error response (422 from the
  validation of the body or 400 with the text of the exception), the application state
  stays as it was, and no request touches the state of the background loops, where
  \<open>errors\<close> lives.
\<close>

theorem add_task_validation:
  assumes "ascii_digits eng"
  shows "(valid_time_hm s \<longrightarrow> full_match eng time_hm_pattern s)
   \<and> (ascii_only s
      \<longrightarrow> (full_match eng time_hm_pattern s
            \<longleftrightarrow> valid_time_hm s
                \<or> (dollar_before_newline eng \<and> s \<noteq> [] \<and> last s = 10
                    \<and> valid_time_hm (butlast s))))
   \<and> (command p \<noteq> []
      \<longrightarrow> ((\<exists>t. snd (framework_add_task eng new_id why p a) = Created t)
            \<longleftrightarrow> valid_time_hm (time_hm p)))
   \<and> (\<not> valid_time_hm (time_hm p)
      \<longrightarrow> (snd (framework_add_task eng new_id why p a) = Unprocessable
           \<or> snd (framework_add_task eng new_id why p a) = BadRequest why)
          \<and> fst (framework_add_task eng new_id why p a) = a)
   \<and> background (fst (framework_add_task eng new_id why p a)) = background a"
proof -
  have 1: "valid_time_hm t \<Longrightarrow> full_match eng time_hm_pattern t" for t
    using pattern_accepts_valid[OF assms] by (simp add: full_match_def)
  have 2: "ascii_only s
      \<longrightarrow> (full_match eng time_hm_pattern s
            \<longleftrightarrow> valid_time_hm s
                \<or> (dollar_before_newline eng \<and> s \<noteq> [] \<and> last s = 10
                    \<and> valid_time_hm (butlast s)))"
    using full_match_on_ascii[OF assms] by blast
  have 3: "command p \<noteq> []
      \<longrightarrow> ((\<exists>t. snd (framework_add_task eng new_id why p a) = Created t)
            \<longleftrightarrow> valid_time_hm (time_hm p))"
    using 1[of "time_hm p"]
    by (auto simp: framework_add_task_def add_task_def payload_valid_def Suc_le_eq)
  have 4: "\<not> valid_time_hm (time_hm p)
      \<longrightarrow> (snd (framework_add_task eng new_id why p a) = Unprocessable
           \<or> snd (framework_add_task eng new_id why p a) = BadRequest why)
          \<and> fst (framework_add_task eng new_id why p a) = a"
    by (simp add: framework_add_task_def add_task_def)
  have 5: "background (fst (framework_add_task eng new_id why p a)) = background a"
    by (simp add: framework_add_task_def add_task_def)
  show ?thesis using 1[of s] 2 3 4 5 by blast
qed

theorem add_task_validation_witness:
  "ascii_digits python_re \<and> ascii_digits rust_regex
   \<and> command good_payload \<noteq> [] \<and> valid_time_hm (time_hm good_payload)
   \<and> full_match python_re time_hm_pattern (time_hm good_payload)
   \<and> snd (framework_add_task python_re (ascii ''t1'') (ascii ''bad time'') good_payload app0)
       = Created \<lparr>task_id = (ascii ''t1''), task_time_hm = (ascii ''09:00''),
                  command_text = (ascii ''/status''), enabled = True, task_description = []\<rparr>
   \<and> \<not> valid_time_hm (time_hm bad_payload)
   \<and> framework_add_task python_re (ascii ''t2'') (ascii ''bad time'') bad_payload app0
       = (app0, Unprocessable)
   \<and> \<not> valid_time_hm (time_hm arabic_payload)
   \<and> full_match rust_regex time_hm_pattern (time_hm arabic_payload)
   \<and> framework_add_task rust_regex (ascii ''t3'') (ascii ''bad time'') arabic_payload app0
       = (app0, BadRequest (ascii ''bad time''))
   \<and> ascii_only (time_hm newline_payload) \<and> \<not> valid_time_hm (time_hm newline_payload)
   \<and> framework_add_task python_re (ascii ''t4'') (ascii ''bad time'') newline_payload app0
       = (app0, BadRequest (ascii ''bad time''))
   \<and> framework_add_task rust_regex (ascii ''t4'') (ascii ''bad time'') newline_payload app0
       = (app0, Unprocessable)"
proof -
  note d = ascii_digits_unicode
  have g: "command good_payload \<noteq> []" "time_hm good_payload = (ascii ''09:00'')"
    by (simp_all add: good_payload_def)
  have b: "time_hm bad_payload = (ascii ''24:00'')" "command bad_payload \<noteq> []"
    by (simp_all add: bad_payload_def)
  have ar: "time_hm arabic_payload = [49, 1635, 58, 48, 48]" "command arabic_payload \<noteq> []"
    by (simp_all add: arabic_payload_def)
  have nl: "time_hm newline_payload = [49, 50, 58, 51, 48, 10]" "command newline_payload \<noteq> []"
    by (simp_all add: newline_payload_def)
  have v1: "valid_time_hm (ascii ''09:00'')" by code_simp
  have v2: "\<not> valid_time_hm (ascii ''24:00'')" by code_simp
  have v3: "\<not> valid_time_hm [49, 1635, 58, 48, 48]" by code_simp
  have v4: "\<not> valid_time_hm [49, 50, 58, 51, 48, 10]" by code_simp
  have v5: "valid_time_hm [49, 50, 58, 51, 48]" by code_simp
  have a4: "ascii_only [49, 50, 58, 51, 48, 10]" by (simp add: ascii_only_def)
  note v = v1 v2 v3 v4 v5
  note T1 = add_task_validation[OF d(2), of "time_hm good_payload" good_payload
      "(ascii ''t1'')" "(ascii ''bad time'')" app0]
  have f1: "full_match python_re time_hm_pattern (time_hm good_payload)"
    using T1 g v by simp
  have "\<exists>t. snd (framework_add_task python_re (ascii ''t1'') (ascii ''bad time'') good_payload app0)
          = Created t"
    using T1 g v by simp
  then have 1: "snd (framework_add_task python_re (ascii ''t1'') (ascii ''bad time'') good_payload app0)
       = Created \<lparr>task_id = (ascii ''t1''), task_time_hm = (ascii ''09:00''),
                  command_text = (ascii ''/status''), enabled = True, task_description = []\<rparr>"
    by (auto simp: framework_add_task_def add_task_def good_payload_def split: if_splits)
  note T2 = add_task_validation[OF d(2), of "time_hm bad_payload" bad_payload
      "(ascii ''t2'')" "(ascii ''bad time'')" app0]
  have "\<not> full_match python_re time_hm_pattern (time_hm bad_payload)"
    using T2 b v by (simp add: ascii_only_def python_re_def)
  then have 2: "framework_add_task python_re (ascii ''t2'') (ascii ''bad time'') bad_payload app0
       = (app0, Unprocessable)"
    by (simp add: framework_add_task_def payload_valid_def)
  have f3: "full_match rust_regex time_hm_pattern (time_hm arabic_payload)"
    unfolding full_match_def time_hm_pattern_shape ar
    by (simp add: rust_regex_def unicode_nd_def nd_zeros_def in_range_def)
  then have 3: "framework_add_task rust_regex (ascii ''t3'') (ascii ''bad time'') arabic_payload app0
       = (app0, BadRequest (ascii ''bad time''))"
    using ar v by (simp add: framework_add_task_def payload_valid_def add_task_def Suc_le_eq)
  have "full_match python_re time_hm_pattern (time_hm newline_payload)"
    using add_task_validation[OF d(2), of "time_hm newline_payload"] nl a4 v
    by (simp add: python_re_def)
  then have 4: "framework_add_task python_re (ascii ''t4'') (ascii ''bad time'') newline_payload app0
       = (app0, BadRequest (ascii ''bad time''))"
    using nl v by (simp add: framework_add_task_def payload_valid_def add_task_def Suc_le_eq)
  have "\<not> full_match rust_regex time_hm_pattern (time_hm newline_payload)"
    using add_task_validation[OF d(1), of "time_hm newline_payload"] nl a4 v
    by (simp add: rust_regex_def)
  then have 5: "framework_add_task rust_regex (ascii ''t4'') (ascii ''bad time'') newline_payload app0
       = (app0, Unprocessable)"
    by (simp add: framework_add_task_def payload_valid_def)
  show ?thesis using d g b ar nl v a4 f1 f3 1 2 3 4 5 by simp
qed

subsection \<open>Runs of new messages\<close>

lemma key_eq_iff: "key a = key b \<longleftrightarrow> a = b"
proof
  assume "key a = key b"
  then have "length (key a) = length (key b)" by simp
  then show "a = b" by (simp add: key_def)
qed simp

lemma key_image_iff: "key n \<in> key ` A \<longleftrightarrow> n \<in> A"
  by (auto simp: key_eq_iff)

lemma inj_key: "inj_on key A"
  by (simp add: inj_on_def key_eq_iff)

lemma strip_key: "strip (key n) = key n"
proof -
  have "\<not> py_isspace (cp CHR ''k'')" by (simp add: py_isspace_def)
  then have d: "dropWhile py_isspace (replicate (Suc n) (cp CHR ''k'')) = replicate (Suc n) (cp CHR ''k'')"
    by simp
  have r: "rev (replicate (Suc n) (cp CHR ''k'')) = replicate (Suc n) (cp CHR ''k'')"
    by (rule rev_replicate)
  show ?thesis unfolding strip_def key_def d r ..
qed

lemma fresh_msg_key:
  "unique_key_of (fresh_msg n) = key n" "strip (msg_text (fresh_msg n)) = []"
  "msg_type (fresh_msg n) = (ascii ''text'')"
proof -
  have k: "key n \<noteq> []" by (simp add: key_def)
  show "unique_key_of (fresh_msg n) = key n"
    using k by (simp add: unique_key_of_def fresh_msg_def text_msg_def strip_key)
  show "strip (msg_text (fresh_msg n)) = []"
    by (simp add: fresh_msg_def text_msg_def strip_def)
  show "msg_type (fresh_msg n) = (ascii ''text'')"
    by (simp add: fresh_msg_def text_msg_def)
qed

lemma fresh_msg_eq_iff: "fresh_msg a = fresh_msg b \<longleftrightarrow> a = b"
proof
  assume "fresh_msg a = fresh_msg b"
  then have "unique_key_of (fresh_msg a) = unique_key_of (fresh_msg b)" by simp
  then show "a = b" by (simp add: fresh_msg_key key_eq_iff)
qed simp

lemma handle_fresh:
  assumes "respond env = respond listener_env_ok" and "key n \<notin> processed_set t"
  shows "snd (handle_msg cfg env (fresh_msg n) t) = None"
    and "calls (fst (handle_msg cfg env (fresh_msg n) t)) = calls t @ [Process (fresh_msg n)]"
proof -
  have k: "key n \<noteq> []" by (simp add: key_def)
  have r: "process_result (respond env (fresh_msg n)) = Inr None"
    by (simp add: assms(1) listener_env_ok_def)
  show "snd (handle_msg cfg env (fresh_msg n) t) = None"
    using assms(2) k r
    by (simp add: handle_msg_def fresh_msg_key Let_def download_step_def reply_step_def
          count_message_def truthy_def)
  show "calls (fst (handle_msg cfg env (fresh_msg n) t)) = calls t @ [Process (fresh_msg n)]"
    using assms(2) k r
    by (simp add: handle_msg_def fresh_msg_key Let_def download_step_def reply_step_def
          count_message_def truthy_def log_call_def)
qed

lemma for_fresh:
  assumes "respond env = respond listener_env_ok" and "distinct ns"
    and "\<forall>n \<in> set ns. key n \<notin> processed_set t"
  shows "snd (for_messages cfg env (map fresh_msg ns) t) = None
     \<and> processed_set (fst (for_messages cfg env (map fresh_msg ns) t))
         = processed_set t \<union> key ` set ns
     \<and> processed_order (fst (for_messages cfg env (map fresh_msg ns) t))
         = foldl (deque_append 5000) (processed_order t) (map key ns)
     \<and> calls (fst (for_messages cfg env (map fresh_msg ns) t))
         = calls t @ map (\<lambda>n. Process (fresh_msg n)) ns"
  using assms(2,3)
proof (induction ns arbitrary: t)
  case Nil
  then show ?case by simp
next
  case (Cons n ns)
  let ?t1 = "fst (handle_msg cfg env (fresh_msg n) t)"
  have f: "key n \<notin> processed_set t" using Cons.prems(2) by simp
  have k: "key n \<noteq> []" by (simp add: key_def)
  note h = handle_fresh[OF assms(1) f, of cfg]
  have p1: "processed_set ?t1 = insert (key n) (processed_set t)"
    using k by (simp add: handle_msg_set fresh_msg_key)
  have o1: "processed_order ?t1 = deque_append 5000 (processed_order t) (key n)"
    using k f by (simp add: handle_msg_order fresh_msg_key)
  have "\<forall>n' \<in> set ns. key n' \<notin> processed_set ?t1"
    using Cons.prems by (auto simp: p1 key_eq_iff)
  moreover have "distinct ns" using Cons.prems(1) by simp
  ultimately have pre: "distinct ns" "\<forall>n' \<in> set ns. key n' \<notin> processed_set ?t1"
    by simp_all
  have ih: "snd (for_messages cfg env (map fresh_msg ns) ?t1) = None
     \<and> processed_set (fst (for_messages cfg env (map fresh_msg ns) ?t1))
         = processed_set ?t1 \<union> key ` set ns
     \<and> processed_order (fst (for_messages cfg env (map fresh_msg ns) ?t1))
         = foldl (deque_append 5000) (processed_order ?t1) (map key ns)
     \<and> calls (fst (for_messages cfg env (map fresh_msg ns) ?t1))
         = calls ?t1 @ map (\<lambda>n. Process (fresh_msg n)) ns"
    by (rule Cons.IH[OF pre])
  have e: "for_messages cfg env (map fresh_msg (n # ns)) t
      = for_messages cfg env (map fresh_msg ns) ?t1"
    using h(1) by (simp add: and_then_alt)
  show ?case
    unfolding e using ih by (simp add: p1 o1 h(2))
qed

text \<open>Appending to a bounded deque keeps the newest elements.\<close>

lemma deque_append_drop:
  "deque_append n xs x = drop (length (xs @ [x]) - n) (xs @ [x])" if "length xs \<le> n"
proof (cases "length xs = n")
  case True
  have e: "length (xs @ [x]) - n = Suc 0" using True by simp
  have "deque_append n xs x = tl (xs @ [x])" using True by (simp add: deque_append_def Let_def)
  also have "\<dots> = drop (Suc 0) (xs @ [x])" by (simp only: drop_Suc drop_0)
  finally show ?thesis unfolding e .
next
  case False
  then show ?thesis using that by (simp add: deque_append_def Let_def)
qed

lemma foldl_deque_append:
  "length xs \<le> n \<Longrightarrow>
   foldl (deque_append n) xs ys = drop (length (xs @ ys) - n) (xs @ ys)"
proof (induction ys arbitrary: xs)
  case Nil
  then show ?case by simp
next
  case (Cons y ys)
  let ?xs' = "deque_append n xs y"
  have l: "length ?xs' \<le> n" using Cons.prems by (rule length_deque_append)
  have d: "?xs' = drop (length (xs @ [y]) - n) (xs @ [y])"
    using Cons.prems by (rule deque_append_drop)
  have "foldl (deque_append n) xs (y # ys) = foldl (deque_append n) ?xs' ys" by simp
  also have "\<dots> = drop (length (?xs' @ ys) - n) (?xs' @ ys)" using Cons.IH[OF l] .
  also have "\<dots> = drop (length (xs @ y # ys) - n) (xs @ y # ys)"
  proof (cases "length xs = n")
    case True
    then have "?xs' = tl (xs @ [y])" by (simp add: deque_append_def Let_def)
    then have x: "?xs' @ ys = tl (xs @ y # ys)" "length ?xs' = n"
      using True by (cases xs; simp)+
    have a: "length (?xs' @ ys) - n = length ys" using x(2) by simp
    have b: "length (xs @ y # ys) - n = Suc (length ys)" using True by simp
    have "drop (length (?xs' @ ys) - n) (?xs' @ ys) = drop (length ys) (?xs' @ ys)"
      by (simp only: a)
    also have "\<dots> = drop (length ys) (tl (xs @ y # ys))" by (simp only: x(1))
    also have "\<dots> = drop (Suc (length ys)) (xs @ y # ys)" by (simp only: drop_Suc)
    also have "\<dots> = drop (length (xs @ y # ys) - n) (xs @ y # ys)" by (simp only: b)
    finally show ?thesis .
  next
    case False
    then have "?xs' = xs @ [y]" using Cons.prems by (simp add: deque_append_def Let_def)
    then show ?thesis by simp
  qed
  finally show ?case .
qed

lemma fresh_cycle:
  assumes "listener_alive t" and "is_logged_in t" and "distinct ns"
    and "\<forall>n \<in> set ns. key n \<notin> processed_set t"
  shows "processed_order (listener_cycle cfg t (fresh_env ns))
           = foldl (deque_append 5000) (processed_order t) (map key ns)"
    and "processed_set (listener_cycle cfg t (fresh_env ns))
           = (if card (processed_set t \<union> key ` set ns)
                  > length (foldl (deque_append 5000) (processed_order t) (map key ns)) + 100
              then set (foldl (deque_append 5000) (processed_order t) (map key ns))
              else processed_set t \<union> key ` set ns)"
    and "calls (listener_cycle cfg t (fresh_env ns))
           = calls t @ GetLatest # map (\<lambda>n. Process (fresh_msg n)) ns"
    and "listener_alive (listener_cycle cfg t (fresh_env ns))"
    and "is_logged_in (listener_cycle cfg t (fresh_env ns))"
proof -
  let ?env = "fresh_env ns"
  let ?t0 = "log_call GetLatest (t\<lparr>had_messages := False\<rparr>)"
  let ?f = "for_messages cfg ?env (map fresh_msg ns) ?t0"
  have r: "respond ?env = respond listener_env_ok" by (simp add: fresh_env_def)
  have fr: "\<forall>n \<in> set ns. key n \<notin> processed_set ?t0"
    using assms(4) by (simp add: log_call_def)
  note f = for_fresh[OF r assms(3) fr, of cfg]
  have t: "listener_try cfg ?env t = resync (fst ?f)"
    using assms(2) f
    by (simp add: listener_try_def login_check_def poll_messages_def fresh_env_def rev_map
          and_then_alt)
  obtain s' where s': "resync (fst ?f) = (s', None)"
    by (metis prod.collapse resync_keeps(3))
  have c: "listener_cycle cfg t ?env = adjust_interval s'"
    using assms(1) t s' by (simp add: listener_cycle_def)
  have s'f: "s' = fst (resync (fst ?f))" using s' by simp
  show "processed_order (listener_cycle cfg t ?env)
           = foldl (deque_append 5000) (processed_order t) (map key ns)"
    unfolding c s'f using f by (simp add: adjust_interval_def resync_def log_call_def)
  show "processed_set (listener_cycle cfg t ?env)
           = (if card (processed_set t \<union> key ` set ns)
                  > length (foldl (deque_append 5000) (processed_order t) (map key ns)) + 100
              then set (foldl (deque_append 5000) (processed_order t) (map key ns))
              else processed_set t \<union> key ` set ns)"
    unfolding c s'f using f by (simp add: adjust_interval_def resync_def log_call_def)
  show "calls (listener_cycle cfg t ?env)
           = calls t @ GetLatest # map (\<lambda>n. Process (fresh_msg n)) ns"
    unfolding c s'f using f by (simp add: adjust_interval_def resync_def log_call_def)
  have u: "untouched t s'" "is_logged_in s' = is_logged_in t"
    using untouched_listener_try[of t cfg ?env] t s' listener_try_login
      poll_messages_login[of cfg ?env "t\<lparr>had_messages := False\<rparr>"]
    by (simp_all add: listener_try_def login_check_def assms(2))
  show "listener_alive (listener_cycle cfg t ?env)"
    unfolding c using u(1) assms(1) by (simp add: adjust_interval_def untouched_def)
  show "is_logged_in (listener_cycle cfg t ?env)"
    unfolding c using u(2) assms(2) by (simp add: adjust_interval_def)
qed

subsection \<open>The drift of \<open>processed_set\<close>\<close>

lemma distinct_deque_append:
  "distinct xs \<Longrightarrow> x \<notin> set xs \<Longrightarrow> distinct (deque_append n xs x)"
  by (auto simp: deque_append_def Let_def distinct_tl)

lemma set_deque_append: "set (deque_append n xs x) \<subseteq> insert x (set xs)"
proof -
  have "set (tl (xs @ [x])) \<subseteq> set (xs @ [x])" by (rule list.set_sel(2)[THEN subsetI]) simp
  then show ?thesis by (auto simp: deque_append_def Let_def)
qed

lemma drift_inv_handle_msg:
  assumes "drift_inv s"
  shows "drift_inv (fst (handle_msg cfg env m s))"
proof (cases "unique_key_of m = [] \<or> unique_key_of m \<in> processed_set s")
  case True
  then show ?thesis
    using assms by (auto simp: drift_inv_def handle_msg_order handle_msg_set insert_absorb)
next
  case False
  then have n: "unique_key_of m \<notin> set (processed_order s)"
    using assms by (auto simp: drift_inv_def)
  have "distinct (deque_append 5000 (processed_order s) (unique_key_of m))"
    using assms n by (intro distinct_deque_append) (simp_all add: drift_inv_def)
  then show ?thesis
    using False assms set_deque_append[of 5000 "processed_order s" "unique_key_of m"]
    by (auto simp: drift_inv_def handle_msg_order handle_msg_set)
qed

lemma drift_inv_for_messages: "drift_inv s \<Longrightarrow> drift_inv (fst (for_messages cfg env ms s))"
proof (induction ms arbitrary: s)
  case Nil
  then show ?case by simp
next
  case (Cons m ms)
  show ?case
    unfolding for_messages.simps
    by (rule and_then_pres[where P=drift_inv]) (auto intro: drift_inv_handle_msg Cons)
qed

lemma drift_inv_resync: "drift_inv s \<Longrightarrow> drift_inv (fst (resync s))"
  by (simp add: resync_def drift_inv_def)

lemma drift_inv_login_check: "drift_inv s \<Longrightarrow> drift_inv (fst (login_check env s))"
  by (auto simp: login_check_def drift_inv_def log_call_def Let_def split: sum.splits)

lemma drift_inv_poll_messages: "drift_inv s \<Longrightarrow> drift_inv (fst (poll_messages cfg env s))"
proof -
  assume b: "drift_inv s"
  then have b1: "drift_inv (log_call GetLatest s)" by (simp add: drift_inv_def log_call_def)
  have "\<And>ms. drift_inv (fst (and_then (for_messages cfg env ms (log_call GetLatest s)) resync))"
    by (intro and_then_pres[where P=drift_inv] drift_inv_for_messages drift_inv_resync b1)
  with b b1 show ?thesis
    by (auto simp: poll_messages_def split: sum.splits)
qed

lemma drift_inv_listener_try: "drift_inv s \<Longrightarrow> drift_inv (fst (listener_try cfg env s))"
  unfolding listener_try_def
  by (intro and_then_pres[where P=drift_inv] drift_inv_login_check drift_inv_poll_messages)
     (simp_all add: drift_inv_def)

lemma listener_cycle_dedup_fields:
  "processed_set (listener_cycle cfg s env)
     = (if listener_alive s then processed_set (fst (listener_try cfg env s)) else processed_set s)"
  "processed_order (listener_cycle cfg s env)
     = (if listener_alive s then processed_order (fst (listener_try cfg env s))
        else processed_order s)"
  by (auto simp: listener_cycle_def adjust_interval_def add_error_def Let_def
        split: prod.splits option.splits exn.splits)

lemma drift_inv_listener_cycle: "drift_inv s \<Longrightarrow> drift_inv (listener_cycle cfg s env)"
  using drift_inv_listener_try[of s cfg env]
  by (simp add: drift_inv_def listener_cycle_dedup_fields)

lemma drift_inv_run_listener: "drift_inv s \<Longrightarrow> drift_inv (run_listener cfg s envs)"
  unfolding run_listener_def
  by (induction envs arbitrary: s) (simp_all add: drift_inv_listener_cycle)

lemma drift_after_resync:
  assumes "drift_inv s"
  shows "drift (fst (resync s)) \<le> 100"
proof (cases "card (processed_set s) > length (processed_order s) + 100")
  case True
  then show ?thesis by (simp add: resync_def drift_def)
next
  case False
  have "card (processed_set s - set (processed_order s))
      = card (processed_set s) - card (set (processed_order s))"
    using assms by (intro card_Diff_subset) (simp_all add: drift_inv_def)
  moreover have "card (set (processed_order s)) = length (processed_order s)"
    using assms by (simp add: drift_inv_def distinct_card)
  ultimately show ?thesis using False by (simp add: resync_def drift_def)
qed

text \<open>What a \<open>try\<close> block that ends normally leaves: the state it started in, when the
  listener is logged out, or a state that went through the check of the drift.\<close>

lemma listener_try_drift:
  assumes "drift_inv s" and "listener_try cfg env s = (s', None)"
  shows "drift s' \<le> 100 \<or> (\<not> is_logged_in s' \<and> drift s' = drift s)"
proof (cases rule: listener_try_cases[of s cfg env])
  case (stopped_early t r)
  then have st: "s' = t" "r = None" using assms(2) by simp_all
  have d: "drift t = drift s" using stopped_early(1) by (simp add: entry_def drift_def)
  have "\<not> is_logged_in s'" using stopped_early(4) st by simp
  with d st show ?thesis by simp
next
  case (fetched t ms)
  let ?t2 = "fst (for_messages cfg env (rev ms) t)"
  have n: "snd (for_messages cfg env (rev ms) t) = None"
    using assms(2) fetched(3)
    by (cases "snd (for_messages cfg env (rev ms) t)") (simp_all add: and_then_alt)
  then have s': "s' = fst (resync ?t2)"
    using assms(2) fetched(3) by (simp add: and_then_alt)
  have "drift_inv t" using assms(1) fetched(1) by (simp add: entry_def drift_inv_def)
  then have "drift_inv ?t2" by (rule drift_inv_for_messages)
  then show ?thesis unfolding s' by (intro disjI1 drift_after_resync)
qed

text \<open>
  C6 (drift of \<open>processed_set\<close>), as the code has it. The check at the end of the
  message loop replaces \<open>processed_set\<close> by the keys of \<open>processed_order\<close> exactly when
  it holds more than \<open>length processed_order + 100\<close> keys, and leaves both equal. At
  every moment of every run \<open>processed_set\<close> contains the keys of \<open>processed_order\<close>. At
  the end of a cycle that raised nothing, at most 100 keys of \<open>processed_set\<close> are
  missing from \<open>processed_order\<close>, provided this held before the cycle.
\<close>

theorem drift_invariant:
  "processed_set (fst (resync t))
     = (if card (processed_set t) > length (processed_order t) + 100
        then set (processed_order t) else processed_set t)
   \<and> processed_order (fst (resync t)) = processed_order t
   \<and> (card (processed_set t) > length (processed_order t) + 100
      \<longrightarrow> processed_set (fst (resync t)) = set (processed_order (fst (resync t))))
   \<and> set (processed_order (run_listener cfg (listener_start s0) envs))
       \<subseteq> processed_set (run_listener cfg (listener_start s0) envs)
   \<and> (drift_inv s \<and> drift s \<le> 100 \<and> listener_alive s \<and> listener_try cfg env s = (s', None)
      \<longrightarrow> set (processed_order (listener_cycle cfg s env)) \<subseteq> processed_set (listener_cycle cfg s env)
          \<and> drift (listener_cycle cfg s env) \<le> 100)"
proof (intro conjI impI)
  show "processed_set (fst (resync t))
     = (if card (processed_set t) > length (processed_order t) + 100
        then set (processed_order t) else processed_set t)"
    by (simp add: resync_def)
  show "processed_order (fst (resync t)) = processed_order t"
    by (simp add: resync_def)
  show "processed_set (fst (resync t)) = set (processed_order (fst (resync t)))"
    if "card (processed_set t) > length (processed_order t) + 100"
    using that by (simp add: resync_def)
  have "drift_inv (listener_start s0)" by (simp add: drift_inv_def listener_start_def)
  then have "drift_inv (run_listener cfg (listener_start s0) envs)"
    by (rule drift_inv_run_listener)
  then show "set (processed_order (run_listener cfg (listener_start s0) envs))
       \<subseteq> processed_set (run_listener cfg (listener_start s0) envs)"
    by (simp add: drift_inv_def)
next
  assume a: "drift_inv s \<and> drift s \<le> 100 \<and> listener_alive s \<and> listener_try cfg env s = (s', None)"
  then have i: "drift_inv s" and t: "listener_try cfg env s = (s', None)" by simp_all
  have "drift_inv (listener_cycle cfg s env)" using i by (rule drift_inv_listener_cycle)
  then show "set (processed_order (listener_cycle cfg s env)) \<subseteq> processed_set (listener_cycle cfg s env)"
    by (simp add: drift_inv_def)
  have "drift (listener_cycle cfg s env) = drift s'"
    using a by (simp add: drift_def listener_cycle_dedup_fields)
  then show "drift (listener_cycle cfg s env) \<le> 100"
    using listener_try_drift[OF i t] a by auto
qed

lemma fresh_cycles_Suc: "fresh_cycles (Suc c) = fresh_cycles c @ [fresh_env (batch c)]"
  by (simp add: fresh_cycles_def)

lemma batch_facts:
  "distinct (batch c)" "set (batch c) = {12 * c ..< 12 * c + 12}"
  "[0 ..< 12 * c] @ batch c = [0 ..< 12 * Suc c]"
proof -
  show "distinct (batch c)" "set (batch c) = {12 * c ..< 12 * c + 12}"
    by (simp_all add: batch_def)
  have "[0 ..< 12 * c + 12] = [0 ..< 12 * c] @ [12 * c ..< 12 * c + 12]"
    by (rule upt_add_eq_append) simp
  moreover have "12 * Suc c = 12 * c + 12" by simp
  ultimately show "[0 ..< 12 * c] @ batch c = [0 ..< 12 * Suc c]"
    by (simp only: batch_def)
qed

lemma count_list_map_inj:
  assumes "\<And>a b. f a = f b \<Longrightarrow> a = b" and "distinct ns"
  shows "count_list (map f ns) (f a) = (if a \<in> set ns then 1 else 0)"
  using assms(2)
proof (induction ns)
  case Nil
  then show ?case by simp
next
  case (Cons n ns)
  then have ih: "count_list (map f ns) (f a) = (if a \<in> set ns then 1 else 0)"
    and nn: "n \<notin> set ns" by simp_all
  show ?case
  proof (cases "n = a")
    case True
    then show ?thesis using ih nn by simp
  next
    case False
    then have "f n \<noteq> f a" using assms(1)[of n a] by blast
    then show ?thesis using ih False by simp
  qed
qed

lemma length_fresh_order:
  "length (foldl (deque_append 5000) [] (map key [0..<N])) = N - (N - 5000)"
  by (simp add: foldl_deque_append)

lemma card_fresh_keys: "card (key ` {0..<N}) = N"
  by (simp add: card_image inj_key)

text \<open>The state after \<open>c\<close> polls of twelve new messages each, as long as no
  resynchronisation has taken place.\<close>

lemma fresh_run:
  assumes "c \<le> 425"
  shows "processed_set (run_listener cfg state0 (fresh_cycles c)) = key ` {0 ..< 12 * c}
     \<and> processed_order (run_listener cfg state0 (fresh_cycles c))
         = foldl (deque_append 5000) [] (map key [0 ..< 12 * c])
     \<and> listener_alive (run_listener cfg state0 (fresh_cycles c))
     \<and> is_logged_in (run_listener cfg state0 (fresh_cycles c))
     \<and> count_list (calls (run_listener cfg state0 (fresh_cycles c))) (Process (fresh_msg 0))
         = (if c = 0 then 0 else 1)"
  using assms
proof (induction c)
  case 0
  then show ?case by (simp add: fresh_cycles_def run_listener_def state0_def)
next
  case (Suc c)
  let ?S = "run_listener cfg state0 (fresh_cycles c)"
  let ?S' = "listener_cycle cfg ?S (fresh_env (batch c))"
  have ih: "processed_set ?S = key ` {0 ..< 12 * c}"
    "processed_order ?S = foldl (deque_append 5000) [] (map key [0 ..< 12 * c])"
    "listener_alive ?S" "is_logged_in ?S"
    "count_list (calls ?S) (Process (fresh_msg 0)) = (if c = 0 then 0 else 1)"
    using Suc by simp_all
  have r: "run_listener cfg state0 (fresh_cycles (Suc c)) = ?S'"
    by (simp add: fresh_cycles_Suc run_listener_def)
  have fr: "\<forall>n \<in> set (batch c). key n \<notin> processed_set ?S"
    by (simp add: ih(1) key_image_iff batch_facts)
  note fc = fresh_cycle[OF ih(3) ih(4) batch_facts(1) fr, of cfg]
  have u: "processed_set ?S \<union> key ` set (batch c) = key ` {0 ..< 12 * Suc c}"
  proof -
    have "{0 ..< 12 * c} \<union> {12 * c ..< 12 * c + 12} = {0 ..< 12 * Suc c}" by auto
    then show ?thesis by (simp add: ih(1) batch_facts(2) image_Un[symmetric] del: image_Un)
  qed
  have o: "foldl (deque_append 5000) (processed_order ?S) (map key (batch c))
      = foldl (deque_append 5000) [] (map key [0 ..< 12 * Suc c])"
  proof -
    have "foldl (deque_append 5000) [] (map key ([0 ..< 12 * c] @ batch c))
        = foldl (deque_append 5000) (processed_order ?S) (map key (batch c))"
      by (simp only: map_append foldl_append ih(2))
    then show ?thesis by (simp only: batch_facts(3))
  qed
  have n: "\<not> card (key ` {0 ..< 12 * Suc c})
      > length (foldl (deque_append 5000) [] (map key [0 ..< 12 * Suc c])) + 100"
    using Suc.prems by (simp only: card_fresh_keys length_fresh_order) simp
  have p: "processed_set ?S' = key ` {0 ..< 12 * Suc c}"
    using fc(2) n by (simp only: u o if_False)
  have q: "processed_order ?S' = foldl (deque_append 5000) [] (map key [0 ..< 12 * Suc c])"
    using fc(1) by (simp only: o)
  have "count_list (map (\<lambda>n. Process (fresh_msg n)) (batch c)) (Process (fresh_msg 0))
      = (if 0 \<in> set (batch c) then 1 else 0)"
    by (rule count_list_map_inj) (simp_all add: fresh_msg_eq_iff batch_facts)
  then have k: "count_list (calls ?S') (Process (fresh_msg 0)) = 1"
    using ih(5) by (simp add: fc(3) batch_facts(2))
  show ?case
    unfolding r using p q fc(4) fc(5) k by simp
qed

lemma listener_try_logged_in:
  assumes "is_logged_in s" and "fetch env = Inr ms"
  shows "listener_try cfg env s
      = and_then (for_messages cfg env (rev ms) (log_call GetLatest (s\<lparr>had_messages := False\<rparr>)))
          resync"
  using assms by (simp add: listener_try_def login_check_def poll_messages_def)

lemma raising_cycle:
  assumes "listener_alive t" and "is_logged_in t" and "key 5100 \<notin> processed_set t"
  shows "processed_set (listener_cycle cfg t raising_env) = insert (key 5100) (processed_set t)"
    and "processed_order (listener_cycle cfg t raising_env)
           = deque_append 5000 (processed_order t) (key 5100)"
    and "poll_interval (listener_cycle cfg t raising_env) = 3"
proof -
  let ?t0 = "log_call GetLatest (t\<lparr>had_messages := False\<rparr>)"
  let ?h = "handle_msg cfg raising_env (fresh_msg 5100) ?t0"
  have k: "key 5100 \<noteq> []" by (simp add: key_def)
  have f: "fetch raising_env = Inr [fresh_msg 5100]" by (simp add: raising_env_def)
  have n: "key 5100 \<notin> processed_set ?t0" using assms(3) by (simp add: log_call_def)
  have e: "snd ?h = Some (Exception (ascii ''handler failed''))"
    using n k
    by (simp add: handle_msg_def fresh_msg_key Let_def download_step_def reply_step_def
          raising_env_def)
  have h1: "and_then ?h g = ?h" for g
    using e by (simp add: and_then_alt)
  have "rev [fresh_msg 5100] = [fresh_msg 5100]" by simp
  then have "listener_try cfg raising_env t = ?h"
    unfolding listener_try_logged_in[OF assms(2) f]
    by (simp only: for_messages.simps h1)
  moreover have "?h = (fst ?h, Some (Exception (ascii ''handler failed'')))"
    using e by (simp add: prod_eq_iff)
  ultimately have t: "listener_try cfg raising_env t = (fst ?h, Some (Exception (ascii ''handler failed'')))"
    by (rule trans)
  have p: "processed_set (fst ?h) = insert (key 5100) (processed_set t)"
    using k by (simp add: handle_msg_set fresh_msg_key log_call_def)
  have o: "processed_order (fst ?h) = deque_append 5000 (processed_order t) (key 5100)"
    using k n by (simp add: handle_msg_order fresh_msg_key log_call_def)
  show "processed_set (listener_cycle cfg t raising_env) = insert (key 5100) (processed_set t)"
    using assms(1) by (simp add: listener_cycle_dedup_fields t p)
  show "processed_order (listener_cycle cfg t raising_env)
           = deque_append 5000 (processed_order t) (key 5100)"
    using assms(1) by (simp add: listener_cycle_dedup_fields t o)
  show "poll_interval (listener_cycle cfg t raising_env) = 3"
    using assms(1) by (simp add: listener_cycle_def t)
qed

lemma fresh_order_drop:
  "foldl (deque_append 5000) [] (map key [0..<N]) = map key [N - 5000 ..< N]"
proof -
  have "foldl (deque_append 5000) [] (map key [0..<N]) = drop (N - 5000) (map key [0..<N])"
    by (simp add: foldl_deque_append)
  also have "\<dots> = map key (drop (N - 5000) [0..<N])" by (rule drop_map)
  also have "\<dots> = map key [N - 5000 ..< N]" by (simp add: drop_upt)
  finally show ?thesis .
qed

lemma drift_run_state:
  "processed_set (run_listener config0 state0 drift_run) = key ` {0..<5101}"
  "processed_order (run_listener config0 state0 drift_run) = map key [101..<5101]"
  "poll_interval (run_listener config0 state0 drift_run) = 3"
proof -
  let ?S = "run_listener config0 state0 (fresh_cycles 425)"
  have S: "processed_set ?S = key ` {0 ..< 5100}"
    "processed_order ?S = foldl (deque_append 5000) [] (map key [0 ..< 5100])"
    "listener_alive ?S" "is_logged_in ?S"
    using fresh_run[of 425 config0] by simp_all
  have r: "run_listener config0 state0 drift_run = listener_cycle config0 ?S raising_env"
    by (simp add: drift_run_def run_listener_def)
  have n: "key 5100 \<notin> processed_set ?S" by (simp add: S(1) key_image_iff)
  note c = raising_cycle[OF S(3) S(4) n, of config0]
  have "insert (5100::nat) {0..<5100} = {0..<5101}" by auto
  then have "insert (key 5100) (key ` {0..<5100}) = key ` {0..<5101}"
    by (simp only: image_insert[symmetric])
  then show "processed_set (run_listener config0 state0 drift_run) = key ` {0..<5101}"
    by (simp only: r c(1) S(1))
  have a: "[0..<5100] @ [5100] = [0..<5101::nat]"
  proof -
    have "[0..<Suc 5100] = [0..<5100] @ [5100::nat]" by (simp only: upt_Suc_append le0)
    moreover have "Suc 5100 = 5101" by simp
    ultimately show ?thesis by (simp only:)
  qed
  have b: "(5101::nat) - 5000 = 101" by simp
  have "deque_append 5000 (foldl (deque_append 5000) [] (map key [0..<5100])) (key 5100)
      = foldl (deque_append 5000) [] (map key ([0..<5100] @ [5100]))"
    by (simp only: map_append foldl_append list.map foldl_Cons foldl_Nil)
  then have "deque_append 5000 (foldl (deque_append 5000) [] (map key [0..<5100])) (key 5100)
      = map key [101..<5101]"
    by (simp only: a fresh_order_drop b)
  then show "processed_order (run_listener config0 state0 drift_run) = map key [101..<5101]"
    by (simp only: r c(2) S(2))
  show "poll_interval (run_listener config0 state0 drift_run) = 3"
    by (simp only: r c(3))
qed

text \<open>
  As the specification words it, the property fails at the end of a cycle that raised: the check of the
  drift is skipped, and after 5101 keys in all, 101 keys of \<open>processed_set\<close> are missing
  from \<open>processed_order\<close>, with no resynchronisation before.
\<close>

theorem drift_counterexample:
  "length drift_run = 426
   \<and> card (processed_set (run_listener config0 state0 drift_run)) = 5101
   \<and> length (processed_order (run_listener config0 state0 drift_run)) = 5000
   \<and> drift (run_listener config0 state0 drift_run) = 101
   \<and> \<not> drift (run_listener config0 state0 drift_run) \<le> 100"
proof -
  have d: "key ` {0..<5101} - set (map key [101..<5101]) = key ` {0..<101}"
  proof -
    have "key ` {0..<5101} - key ` {101..<5101} = key ` ({0..<5101} - {101..<5101})"
      by (rule image_set_diff[symmetric]) (simp add: inj_def key_eq_iff)
    moreover have "{0..<5101} - {101..<5101} = {0..<101::nat}" by auto
    ultimately show ?thesis by (simp only: set_map set_upt)
  qed
  have "drift (run_listener config0 state0 drift_run) = 101"
    unfolding drift_def drift_run_state d by (rule card_fresh_keys)
  moreover have "card (processed_set (run_listener config0 state0 drift_run)) = 5101"
    unfolding drift_run_state by (rule card_fresh_keys)
  moreover have "length (processed_order (run_listener config0 state0 drift_run)) = 5000"
  proof -
    have "(5101::nat) - 101 = 5000" by simp
    then show ?thesis by (simp only: drift_run_state length_map length_upt)
  qed
  moreover have "length drift_run = 426" by (simp add: drift_run_def fresh_cycles_def)
  ultimately show ?thesis by simp
qed

theorem drift_invariant_witness:
  "card (processed_set drifted_state) > length (processed_order drifted_state) + 100
   \<and> processed_set (fst (resync drifted_state)) = set (processed_order (fst (resync drifted_state)))
   \<and> drift_inv state0 \<and> drift state0 \<le> 100 \<and> listener_alive state0
   \<and> listener_try config0 listener_env_ok state0 = (state0\<lparr>calls := [GetLatest]\<rparr>, None)
   \<and> drift (listener_cycle config0 state0 listener_env_ok) \<le> 100"
proof -
  have c: "card (processed_set drifted_state) > length (processed_order drifted_state) + 100"
    by (simp add: drifted_state_def state0_def card_fresh_keys)
  have 1: "processed_set (fst (resync drifted_state))
      = set (processed_order (fst (resync drifted_state)))"
    using drift_invariant[of drifted_state config0 state0 "[]"] c by blast
  have s: "drift_inv state0" "drift state0 \<le> 100" "listener_alive state0"
    by (simp_all add: drift_inv_def drift_def state0_def)
  have t: "listener_try config0 listener_env_ok state0 = (state0\<lparr>calls := [GetLatest]\<rparr>, None)"
    by (simp add: listener_defs listener_env_ok_def state0_def)
  have 2: "drift (listener_cycle config0 state0 listener_env_ok) \<le> 100"
    using drift_invariant[of t config0 s0 "[]" state0 listener_env_ok "state0\<lparr>calls := [GetLatest]\<rparr>"]
      s t by blast
  show ?thesis using c 1 s t 2 by blast
qed

subsection \<open>Dispatching a key once\<close>







lemma dispatches_log_call: "\<not> is_process c \<Longrightarrow> dispatches k (log_call c s) = dispatches k s"
  by (cases c) (simp_all add: dispatches_def log_call_def is_process_def)












end
